theory Spec2Isabelle
  imports Complex_Main "HOL-Library.Multiset" "HOL-Library.AList"
begin

section \<open>Invoice Assistant: the document reconciliation services\<close>

text \<open>
  A shallow embedding of the server-side services of the Invoice Assistant:
  \<^item> \<open>AIService\<close> (error classification and retry with exponential backoff),
  \<^item> \<open>PairingService\<close> (greedy pairing of invoices with trip sheets),
  \<^item> \<open>SortingService\<close> (grouping by expense type and ordering by date),
  \<^item> \<open>AnomalyDetector\<close> (duplicates, amount outliers, date gaps, missing pairs),
  \<^item> \<open>BatchProcessor\<close> (the per-file recognition loop and the pipeline).

  Conventions of the embedding.
  \<^item> A JavaScript string is the list of the bytes of its UTF-8 encoding (\<open>string\<close>).
    Equality, \<open>includes\<close>, \<open>split\<close> on an ASCII separator and the ASCII-only
    regular expressions of the source agree on code units and on UTF-8 bytes.
    \<open>toLowerCase\<close> is modelled on the ASCII letters; bytes of a multi-byte sequence
    (all the Chinese text of the source) are left unchanged, as JavaScript leaves
    uncased characters unchanged. Cased letters beyond ASCII are not modelled.
  \<^item> A JavaScript number holding a currency amount is a rational (\<open>rat\<close>); the
    rounding of IEEE doubles is not modelled. Scores, delays and day counts are exact
    integers in the source and in the model.
  \<^item> A \<open>Date\<close> is its \<open>getTime()\<close> value in milliseconds. The time zone of the
    process is the parameter \<open>tz\<close>: \<open>new Date(year, monthIndex, day)\<close> is the local
    midnight of that day, so two of them are a whole number of days apart only when the
    same offset is in force at both. The current year read by
    \<open>new Date().getFullYear()\<close> is the parameter \<open>cy\<close>.
  \<^item> \<open>Array.prototype.sort\<close> is stable (ECMAScript 2019); it is modelled by a stable
    insertion sort that takes the comparator.
  \<^item> Human-readable message strings are kept as structured values (which phrase, with
    which arguments) instead of the formatted text.
\<close>

subsection \<open>Strings\<close>

definition lowerChar :: "char \<Rightarrow> char" where
  "lowerChar c =
     (let n = (of_char c :: nat) in if 65 \<le> n \<and> n \<le> 90 then char_of (n + 32) else c)"

definition toLowerCase :: "string \<Rightarrow> string" where
  "toLowerCase s = map lowerChar s"

fun startsWith :: "string \<Rightarrow> string \<Rightarrow> bool" where
  "startsWith hay [] = True"
| "startsWith [] (n # ns) = False"
| "startsWith (h # hs) (n # ns) = (h = n \<and> startsWith hs ns)"

text \<open>\<open>hay.includes(needle)\<close>\<close>

fun includesStr :: "string \<Rightarrow> string \<Rightarrow> bool" where
  "includesStr [] needle = (needle = [])"
| "includesStr (h # hs) needle = (startsWith (h # hs) needle \<or> includesStr hs needle)"

text \<open>\<open>s.split(sep)\<close> for a one-character separator.\<close>

fun splitOn :: "char \<Rightarrow> string \<Rightarrow> string list" where
  "splitOn sep [] = [[]]"
| "splitOn sep (c # cs) =
     (if c = sep then [] # splitOn sep cs
      else (case splitOn sep cs of [] \<Rightarrow> [[c]] | p # ps \<Rightarrow> (c # p) # ps))"

definition isDigit :: "char \<Rightarrow> bool" where
  "isDigit c = (c \<in> set ''0123456789'')"

text \<open>\<open>\d{lo,hi}\<close> against a whole string.\<close>

definition digits :: "nat \<Rightarrow> nat \<Rightarrow> string \<Rightarrow> bool" where
  "digits lo hi s = (lo \<le> length s \<and> length s \<le> hi \<and> list_all isDigit s)"

text \<open>\<open>Number(s)\<close> for a string of decimal digits.\<close>

definition digitVal :: "char \<Rightarrow> int" where
  "digitVal c = int (of_char c) - 48"

definition Number :: "string \<Rightarrow> int" where
  "Number s = foldl (\<lambda>a c. 10 * a + digitVal c) 0 s"

subsection \<open>Dates\<close>

text \<open>
  Days from 1970-01-01 to the first day of month \<open>mn\<close> (0 = January) of the
  proleptic Gregorian year \<open>ym\<close>.
\<close>

definition dayFromYearMonth :: "int \<Rightarrow> int \<Rightarrow> int" where
  "dayFromYearMonth ym mn =
     (let m = mn + 1;
          y = (if m \<le> 2 then ym - 1 else ym);
          era = y div 400;
          yoe = y - era * 400;
          doy = (153 * (m + (if m > 2 then - 3 else 9)) + 2) div 5;
          doe = yoe * 365 + yoe div 4 - yoe div 100 + doy
      in era * 146097 + doe - 719468)"

definition msPerDay :: int where
  "msPerDay = 1000 * 60 * 60 * 24"

text \<open>
  The day that \<open>new Date(year, monthIndex, day)\<close> names, counted from 1970-01-01: a
  year from 0 to 99 means 1900 + year, and a month index or a day out of range carries
  over (\<open>MakeDay\<close> of ECMA-262).
\<close>

definition makeDay :: "int \<Rightarrow> int \<Rightarrow> int \<Rightarrow> int" where
  "makeDay year monthIndex day =
     (let yr = (if 0 \<le> year \<and> year \<le> 99 then 1900 + year else year);
          ym = yr + monthIndex div 12;
          mn = monthIndex mod 12
      in dayFromYearMonth ym mn + day - 1)"

text \<open>
  The time zone of the process: the offset of local time from UTC, in milliseconds,
  that is in force at the local midnight beginning day \<open>n\<close> (days from 1970-01-01).
  In the zone \<open>utc\<close> the offset is 0 throughout.
\<close>

type_synonym TimeZone = "int \<Rightarrow> int"

definition utc :: TimeZone where
  "utc n = 0"

text \<open>
  \<open>new Date(year, monthIndex, day).getTime()\<close>: the arguments are local time, the
  result is the UTC time value of the local midnight.
\<close>

definition newDate :: "TimeZone \<Rightarrow> int \<Rightarrow> int \<Rightarrow> int \<Rightarrow> int" where
  "newDate tz year monthIndex day =
     (let dayNumber = makeDay year monthIndex day
      in dayNumber * msPerDay - tz dayNumber)"

text \<open>The three regular expressions of \<open>parseDate\<close>.\<close>

definition isMonthDay :: "string \<Rightarrow> bool" where
  "isMonthDay s = (case splitOn CHR ''/'' s of
      [m, d] \<Rightarrow> digits 1 2 m \<and> digits 1 2 d | _ \<Rightarrow> False)"

definition isYearMonthDay :: "char \<Rightarrow> string \<Rightarrow> bool" where
  "isYearMonthDay sep s = (case splitOn sep s of
      [y, m, d] \<Rightarrow> digits 4 4 y \<and> digits 1 2 m \<and> digits 1 2 d | _ \<Rightarrow> False)"

text \<open>
  \<open>parseDate\<close> (the same private method in \<open>PairingService\<close>, \<open>SortingService\<close>
  and \<open>AnomalyDetector\<close>): \<open>MM/DD\<close> in the current year, \<open>YYYY-MM-DD\<close>,
  \<open>YYYY/MM/DD\<close>; anything else is \<open>null\<close>.
\<close>

definition parseDate :: "TimeZone \<Rightarrow> int \<Rightarrow> string \<Rightarrow> int option" where
  "parseDate tz cy dateStr =
     (if isMonthDay dateStr then
        (case map Number (splitOn CHR ''/'' dateStr) of
           [month, day] \<Rightarrow> Some (newDate tz cy (month - 1) day) | _ \<Rightarrow> None)
      else if isYearMonthDay CHR ''-'' dateStr then
        (case map Number (splitOn CHR ''-'' dateStr) of
           [year, month, day] \<Rightarrow> Some (newDate tz year (month - 1) day) | _ \<Rightarrow> None)
      else if isYearMonthDay CHR ''/'' dateStr then
        (case map Number (splitOn CHR ''/'' dateStr) of
           [year, month, day] \<Rightarrow> Some (newDate tz year (month - 1) day) | _ \<Rightarrow> None)
      else None)"

subsection \<open>Stable sorting with a comparator\<close>

text \<open>
  \<open>xs.sort(cmp)\<close>: \<open>le a b\<close> stands for \<open>cmp(a, b) \<le> 0\<close>. An element is put
  before the first element it does not follow, so equal elements keep their order.
\<close>

fun insertBy :: "('a \<Rightarrow> 'a \<Rightarrow> bool) \<Rightarrow> 'a \<Rightarrow> 'a list \<Rightarrow> 'a list" where
  "insertBy le x [] = [x]"
| "insertBy le x (y # ys) = (if le x y then x # y # ys else y # insertBy le x ys)"

definition stableSort :: "('a \<Rightarrow> 'a \<Rightarrow> bool) \<Rightarrow> 'a list \<Rightarrow> 'a list" where
  "stableSort le xs = foldr (insertBy le) xs []"

subsection \<open>AIService: error classification and retry\<close>

datatype AIErrorType = API_KEY_INVALID | RATE_LIMIT_EXCEEDED | NETWORK_ERROR | PARSING_ERROR | TIMEOUT

record AIError =
  errType :: AIErrorType
  retryable :: bool

text \<open>
  What \<open>operation\<close> can catch: an axios error with its \<open>code\<close> and, when the server
  answered, the HTTP status of the response; or any other thrown value (among them
  the \<open>AIError\<close> thrown for an empty or unparseable answer).
\<close>

datatype Thrown = AxiosError "string option" "nat option" | OtherError

fun handleAPIError :: "Thrown \<Rightarrow> AIError" where
  "handleAPIError (AxiosError code response) =
     (if code = Some ''ECONNABORTED'' \<or> code = Some ''ETIMEDOUT'' then
        \<lparr>errType = TIMEOUT, retryable = True\<rparr>
      else (case response of
        None \<Rightarrow> \<lparr>errType = NETWORK_ERROR, retryable = True\<rparr>
      | Some status \<Rightarrow>
          if status = 401 \<or> status = 403 then \<lparr>errType = API_KEY_INVALID, retryable = False\<rparr>
          else if status = 429 then \<lparr>errType = RATE_LIMIT_EXCEEDED, retryable = True\<rparr>
          else \<lparr>errType = NETWORK_ERROR, retryable = (status \<ge> 500)\<rparr>))"
| "handleAPIError OtherError = \<lparr>errType = NETWORK_ERROR, retryable = False\<rparr>"

definition MAX_RETRIES :: nat where
  "MAX_RETRIES = 3"

definition INITIAL_RETRY_DELAY :: nat where
  "INITIAL_RETRY_DELAY = 1000"

definition TIMEOUT_MS :: nat where
  "TIMEOUT_MS = 30000"

text \<open>
  \<open>retryWithBackoff(operation, retryCount)\<close>. The operation is called once per level
  of the recursion, so its outcome at the call with counter \<open>k\<close> is \<open>operation k\<close>.
  The result is the list of delays waited (milliseconds, in order) and the value
  returned or the error thrown in the end.
\<close>

function retryWithBackoff :: "(nat \<Rightarrow> AIError + 'a) \<Rightarrow> nat \<Rightarrow> nat list \<times> (AIError + 'a)" where
  "retryWithBackoff operation retryCount =
     (case operation retryCount of
        Inr v \<Rightarrow> ([], Inr v)
      | Inl error \<Rightarrow>
          if retryable error \<and> retryCount < MAX_RETRIES then
            (let delay = INITIAL_RETRY_DELAY * 2 ^ retryCount;
                 r = retryWithBackoff operation (retryCount + 1)
             in (delay # fst r, snd r))
          else ([], Inl error))"
  by pat_completeness auto
termination
  by (relation "measure (\<lambda>(operation, retryCount). MAX_RETRIES - retryCount)") auto

text \<open>An operation that times out at every attempt.\<close>

definition alwaysTimeout :: "nat \<Rightarrow> AIError + nat" where
  "alwaysTimeout k = Inl (handleAPIError (AxiosError (Some ''ETIMEDOUT'') None))"

subsection \<open>The data model\<close>

datatype DocumentType = invoice | trip_sheet

datatype FileType = pdfFile | imageFile

datatype InvoiceType = taxi | hotel | train | shipping | toll | consumables | other

datatype DocumentStatus = pending | processing | completed | error

record TripDetails =
  platform :: string
  departure :: string
  destination :: string
  time :: string
  distanceKm :: rat

text \<open>
  \<open>DocumentData\<close>; the field \<open>id\<close> is \<open>docId\<close> here (\<open>id\<close> is the identity
  function of HOL). An optional field is an \<open>option\<close>.
\<close>

record DocumentData =
  docId :: string
  fileName :: string
  fileType :: FileType
  documentType :: DocumentType
  date :: string
  amount :: rat
  description :: string
  confidence :: rat
  invoiceNumber :: "string option"
  vendor :: "string option"
  taxAmount :: "rat option"
  invoiceType :: "InvoiceType option"
  tripDetails :: "TripDetails option"
  status :: DocumentStatus
  errorMessage :: "string option"

text \<open>The phrases that \<open>calculateMatchScore\<close> joins into \<open>matchReason\<close>.\<close>

datatype MatchReason =
    AmountExact rat
  | DateSame int
  | DateAdjacent
  | DateClose int
  | DateNear int
  | PlatformMatched string

record PairingPair =
  invoiceId :: string
  tripSheetId :: string
  pairConfidence :: nat
  matchReason :: "MatchReason list"

record PairingResult =
  pairs :: "PairingPair list"
  unmatchedInvoices :: "string list"
  unmatchedTripSheets :: "string list"

subsection \<open>PairingService\<close>

text \<open>\<open>checkAmountMatch\<close>: the amounts differ by at most 0.01.\<close>

definition checkAmountMatch :: "rat \<Rightarrow> rat \<Rightarrow> MatchReason option" where
  "checkAmountMatch amount1 amount2 =
     (let tolerance = 1 / 100; diff = \<bar>amount1 - amount2\<bar>
      in if diff \<le> tolerance then Some (AmountExact amount1) else None)"

text \<open>
  \<open>checkDateProximity\<close>: the score and the phrase, or nothing when a date does not
  parse or the dates are more than 7 days apart.
\<close>

definition checkDateProximity :: "TimeZone \<Rightarrow> int \<Rightarrow> string \<Rightarrow> string \<Rightarrow> (nat \<times> MatchReason) option" where
  "checkDateProximity tz cy date1 date2 =
     (case (parseDate tz cy date1, parseDate tz cy date2) of
        (Some d1, Some d2) \<Rightarrow>
          (let diffMs = \<bar>d1 - d2\<bar>;
               diffDays = diffMs div msPerDay
           in if diffDays = 0 then Some (30, DateSame d1)
              else if diffDays = 1 then Some (25, DateAdjacent)
              else if diffDays \<le> 3 then Some (20, DateClose diffDays)
              else if diffDays \<le> 7 then Some (10, DateNear diffDays)
              else None)
      | _ \<Rightarrow> None)"

text \<open>The table of \<open>extractPlatformKeywords\<close>, in the order of the object literal.\<close>

definition platformMap :: "(string \<times> string list) list" where
  "platformMap =
     [([CHR 0xE6, CHR 0xBB, CHR 0xB4, CHR 0xE6, CHR 0xBB, CHR 0xB4],
         [[CHR 0xE6, CHR 0xBB, CHR 0xB4, CHR 0xE6, CHR 0xBB, CHR 0xB4], ''didi'']),
      ([CHR 0xE5, CHR 0xA6, CHR 0x82, CHR 0xE7, CHR 0xA5, CHR 0xBA],
         [[CHR 0xE5, CHR 0xA6, CHR 0x82, CHR 0xE7, CHR 0xA5, CHR 0xBA], ''ruqi'']),
      ([CHR 0xE6, CHR 0x9B, CHR 0xB9, CHR 0xE6, CHR 0x93, CHR 0x8D],
         [[CHR 0xE6, CHR 0x9B, CHR 0xB9, CHR 0xE6, CHR 0x93, CHR 0x8D], ''caocao'']),
      ([CHR 0xE9, CHR 0xAB, CHR 0x98, CHR 0xE5, CHR 0xBE, CHR 0xB7],
         [[CHR 0xE9, CHR 0xAB, CHR 0x98, CHR 0xE5, CHR 0xBE, CHR 0xB7], ''amap'']),
      ([CHR 0xE7, CHR 0xBE, CHR 0x8E, CHR 0xE5, CHR 0x9B, CHR 0xA2],
         [[CHR 0xE7, CHR 0xBE, CHR 0x8E, CHR 0xE5, CHR 0x9B, CHR 0xA2], ''meituan'']),
      ([CHR 0xE9, CHR 0xA6, CHR 0x96, CHR 0xE6, CHR 0xB1, CHR 0xBD],
         [[CHR 0xE9, CHR 0xA6, CHR 0x96, CHR 0xE6, CHR 0xB1, CHR 0xBD], ''shouqi''])]"

text \<open>
  \<open>extractPlatformKeywords\<close>: the platform name itself, then the keywords of the
  first table entry whose key the name contains.
\<close>

definition extractPlatformKeywords :: "string \<Rightarrow> string list" where
  "extractPlatformKeywords p =
     [p] @ (case find (\<lambda>(key, values). includesStr p key) platformMap of
              Some (key, values) \<Rightarrow> values | None \<Rightarrow> [])"

text \<open>
  \<open>checkPlatformMatch\<close>: only for a taxi invoice and a trip sheet with a non-empty
  platform name; \<open>x || ''\<close> over an optional string is \<open>orEmpty\<close>.
\<close>

definition orEmpty :: "string option \<Rightarrow> string" where
  "orEmpty s = (case s of Some v \<Rightarrow> v | None \<Rightarrow> [])"

definition checkPlatformMatch :: "DocumentData \<Rightarrow> DocumentData \<Rightarrow> MatchReason option" where
  "checkPlatformMatch invoiceDoc tripSheet =
     (case tripDetails tripSheet of
        None \<Rightarrow> None
      | Some details \<Rightarrow>
          if invoiceType invoiceDoc \<noteq> Some taxi \<or> platform details = [] then None
          else
            (let invoiceText = toLowerCase (orEmpty (vendor invoiceDoc) @ '' '' @ description invoiceDoc);
                 platformKeywords = extractPlatformKeywords (platform details)
             in if list_ex (\<lambda>keyword. includesStr invoiceText (toLowerCase keyword)) platformKeywords
                then Some (PlatformMatched (platform details)) else None))"

text \<open>\<open>calculateMatchScore\<close>: 50 for the amount, up to 30 for the date, 20 for the platform.\<close>

definition calculateMatchScore :: "TimeZone \<Rightarrow> int \<Rightarrow> DocumentData \<Rightarrow> DocumentData \<Rightarrow> nat \<times> MatchReason list" where
  "calculateMatchScore tz cy invoiceDoc tripSheet =
     (let (score1, reasons1) =
            (case checkAmountMatch (amount invoiceDoc) (amount tripSheet) of
               Some r \<Rightarrow> (50, [r]) | None \<Rightarrow> (0, []));
          (score2, reasons2) =
            (case checkDateProximity tz cy (date invoiceDoc) (date tripSheet) of
               Some (s, r) \<Rightarrow> (score1 + s, reasons1 @ [r]) | None \<Rightarrow> (score1, reasons1));
          (score3, reasons3) =
            (case checkPlatformMatch invoiceDoc tripSheet of
               Some r \<Rightarrow> (score2 + 20, reasons2 @ [r]) | None \<Rightarrow> (score2, reasons2))
      in (score3, reasons3))"

text \<open>
  The inner loop of \<open>pairDocuments\<close>: the scan of the trip sheets for one invoice.
  \<open>best\<close> is \<open>bestMatch\<close> (the trip sheet, its score and its reason); a trip sheet
  whose id is already matched is skipped, and a later trip sheet replaces the best
  one only with a strictly higher score.
\<close>

fun scanTripSheets ::
  "TimeZone \<Rightarrow> int \<Rightarrow> DocumentData \<Rightarrow> string set \<Rightarrow> DocumentData list \<Rightarrow>
   (DocumentData \<times> nat \<times> MatchReason list) option \<Rightarrow>
   (DocumentData \<times> nat \<times> MatchReason list) option" where
  "scanTripSheets tz cy invoiceDoc matched [] best = best"
| "scanTripSheets tz cy invoiceDoc matched (tripSheet # rest) best =
     (if docId tripSheet \<in> matched then scanTripSheets tz cy invoiceDoc matched rest best
      else
        (let (score, reason) = calculateMatchScore tz cy invoiceDoc tripSheet
         in if score \<ge> 50 \<and> (case best of None \<Rightarrow> True | Some (t, s, r) \<Rightarrow> score > s)
            then scanTripSheets tz cy invoiceDoc matched rest (Some (tripSheet, score, reason))
            else scanTripSheets tz cy invoiceDoc matched rest best))"

text \<open>
  The state of the outer loop: the pairs so far and the two sets of matched ids.
\<close>

record PairingState =
  statePairs :: "PairingPair list"
  matchedInvoiceIds :: "string set"
  matchedTripSheetIds :: "string set"

text \<open>
  What the loop does with a \<open>bestMatch\<close> (trip sheet, score, reason): push the pair
  and add both ids to the matched sets.
\<close>

definition addPair ::
  "DocumentData \<Rightarrow> DocumentData \<times> nat \<times> MatchReason list \<Rightarrow> PairingState \<Rightarrow> PairingState" where
  "addPair invoiceDoc bestMatch st =
     \<lparr>statePairs = statePairs st @
        [\<lparr>invoiceId = docId invoiceDoc, tripSheetId = docId (fst bestMatch),
          pairConfidence = fst (snd bestMatch), matchReason = snd (snd bestMatch)\<rparr>],
      matchedInvoiceIds = insert (docId invoiceDoc) (matchedInvoiceIds st),
      matchedTripSheetIds = insert (docId (fst bestMatch)) (matchedTripSheetIds st)\<rparr>"

fun pairLoop :: "TimeZone \<Rightarrow> int \<Rightarrow> DocumentData list \<Rightarrow> DocumentData list \<Rightarrow> PairingState \<Rightarrow> PairingState" where
  "pairLoop tz cy tripSheets [] st = st"
| "pairLoop tz cy tripSheets (invoiceDoc # rest) st =
     (case scanTripSheets tz cy invoiceDoc (matchedTripSheetIds st) tripSheets None of
        None \<Rightarrow> pairLoop tz cy tripSheets rest st
      | Some bestMatch \<Rightarrow> pairLoop tz cy tripSheets rest (addPair invoiceDoc bestMatch st))"

definition initialPairingState :: PairingState where
  "initialPairingState = \<lparr>statePairs = [], matchedInvoiceIds = {}, matchedTripSheetIds = {}\<rparr>"

definition pairDocuments :: "TimeZone \<Rightarrow> int \<Rightarrow> DocumentData list \<Rightarrow> PairingResult" where
  "pairDocuments tz cy documents =
     (let invoices = filter (\<lambda>doc. documentType doc = invoice) documents;
          tripSheets = filter (\<lambda>doc. documentType doc = trip_sheet) documents;
          st = pairLoop tz cy tripSheets invoices initialPairingState
      in \<lparr>pairs = statePairs st,
          unmatchedInvoices =
            map docId (filter (\<lambda>invoiceDoc. docId invoiceDoc \<notin> matchedInvoiceIds st) invoices),
          unmatchedTripSheets =
            map docId (filter (\<lambda>tripSheet. docId tripSheet \<notin> matchedTripSheetIds st) tripSheets)\<rparr>)"

text \<open>Scenario A: a taxi invoice and a trip sheet of the same ride.\<close>

definition ruqiChuxing :: string where
  "ruqiChuxing = [CHR 0xE5, CHR 0xA6, CHR 0x82, CHR 0xE7, CHR 0xA5, CHR 0xBA,
                  CHR 0xE5, CHR 0x87, CHR 0xBA, CHR 0xE8, CHR 0xA1, CHR 0x8C]"

definition blankDocument :: DocumentData where
  "blankDocument =
     \<lparr>docId = [], fileName = [], fileType = imageFile, documentType = invoice, date = [],
      amount = 0, description = [], confidence = 0, invoiceNumber = None, vendor = None,
      taxAmount = None, invoiceType = None, tripDetails = None, status = completed,
      errorMessage = None\<rparr>"

definition scenarioInvoice :: DocumentData where
  "scenarioInvoice =
     blankDocument\<lparr>docId := ''inv1'', amount := 21967 / 100, date := ''11/03'',
       invoiceType := Some taxi, vendor := Some ruqiChuxing\<rparr>"

definition scenarioTripSheet :: DocumentData where
  "scenarioTripSheet =
     blankDocument\<lparr>docId := ''trip1'', documentType := trip_sheet, amount := 21967 / 100,
       date := ''11/03'',
       tripDetails := Some \<lparr>platform = ruqiChuxing, departure = [], destination = [],
                             time = [], distanceKm = 0\<rparr>\<rparr>"

text \<open>A batch of four documents: the ride of scenario A, a hotel invoice and a stray trip sheet.\<close>

definition sampleDocuments :: "DocumentData list" where
  "sampleDocuments =
     [scenarioTripSheet,
      blankDocument\<lparr>docId := ''inv2'', amount := 450, date := ''2024-11-02'',
        invoiceType := Some hotel\<rparr>,
      scenarioInvoice,
      blankDocument\<lparr>docId := ''trip2'', documentType := trip_sheet, amount := 30,
        date := ''2024-11-20''\<rparr>]"

subsection \<open>SortingService\<close>

record SortingResult =
  suggestedOrder :: "string list"
  grouping :: "(InvoiceType \<times> string list) list"

definition typePriority :: "InvoiceType \<Rightarrow> int" where
  "typePriority t = (case t of consumables \<Rightarrow> 1 | hotel \<Rightarrow> 2 | taxi \<Rightarrow> 3 | shipping \<Rightarrow> 4
                      | toll \<Rightarrow> 5 | train \<Rightarrow> 6 | other \<Rightarrow> 7)"

text \<open>\<open>Object.keys(this.typePriority)\<close>: the keys in the order of the object literal.\<close>

definition typeKeys :: "InvoiceType list" where
  "typeKeys = [consumables, hotel, taxi, shipping, toll, train, other]"

text \<open>
  \<open>createPairMap\<close>: a \<open>Map\<close> that is only read with \<open>get\<close>, so a partial function;
  each pair sets invoice id to trip-sheet id, then trip-sheet id to invoice id.
\<close>

definition createPairMap :: "PairingResult \<Rightarrow> (string \<rightharpoonup> string)" where
  "createPairMap pairingResult =
     foldl (\<lambda>pairMap pair. (pairMap(invoiceId pair \<mapsto> tripSheetId pair))(tripSheetId pair \<mapsto> invoiceId pair))
       Map.empty (pairs pairingResult)"

text \<open>
  A \<open>Map<InvoiceType, DocumentData[]>\<close> is an association list in insertion order:
  \<open>set\<close> is \<open>AList.update\<close> (an existing key keeps its place), and
  \<open>groups.get(type) || []\<close> is \<open>groupGet\<close>.
\<close>

type_synonym Groups = "(InvoiceType \<times> DocumentData list) list"

definition groupGet :: "Groups \<Rightarrow> InvoiceType \<Rightarrow> DocumentData list" where
  "groupGet groups t = (case map_of groups t of Some docs \<Rightarrow> docs | None \<Rightarrow> [])"

text \<open>
  The paired trip sheet that the truthiness test \<open>if (pairedTripSheetId)\<close> and
  \<open>docs.find\<close> yield for an invoice: none when the map has no entry, when the id is
  the empty string (falsy in JavaScript), or when no document of \<open>docs\<close> has the id.
\<close>

definition findPairedTripSheet :: "(string \<rightharpoonup> string) \<Rightarrow> DocumentData list \<Rightarrow> DocumentData \<Rightarrow> DocumentData option" where
  "findPairedTripSheet pairMap docs doc =
     (case pairMap (docId doc) of
        None \<Rightarrow> None
      | Some pairedTripSheetId \<Rightarrow>
          if pairedTripSheetId \<noteq> [] then find (\<lambda>d. docId d = pairedTripSheetId) docs else None)"

text \<open>\<open>doc.invoiceType || 'other'\<close>\<close>

definition typeOrOther :: "DocumentData \<Rightarrow> InvoiceType" where
  "typeOrOther doc = (case invoiceType doc of Some t \<Rightarrow> t | None \<Rightarrow> other)"

text \<open>
  The first loop of \<open>groupByExpenseType\<close>, over all documents: an invoice that is not
  processed yet is pushed to the group of its type (\<open>other\<close> without one), followed
  by its paired trip sheet.
\<close>

fun groupInvoices ::
  "DocumentData list \<Rightarrow> (string \<rightharpoonup> string) \<Rightarrow> DocumentData list \<Rightarrow> Groups \<times> string set \<Rightarrow> Groups \<times> string set" where
  "groupInvoices documents pairMap [] st = st"
| "groupInvoices documents pairMap (doc # rest) (groups, processedIds) =
     (if docId doc \<in> processedIds then groupInvoices documents pairMap rest (groups, processedIds)
      else if documentType doc = invoice then
        (let invoiceType = typeOrOther doc;
             group = groupGet groups invoiceType @ [doc];
             processedIds1 = insert (docId doc) processedIds
         in case findPairedTripSheet pairMap documents doc of
              Some pairedTripSheet \<Rightarrow>
                groupInvoices documents pairMap rest
                  (AList.update invoiceType (group @ [pairedTripSheet]) groups,
                   insert (docId pairedTripSheet) processedIds1)
            | None \<Rightarrow>
                groupInvoices documents pairMap rest
                  (AList.update invoiceType group groups, processedIds1))
      else groupInvoices documents pairMap rest (groups, processedIds))"

text \<open>The second loop: a trip sheet that is still unprocessed goes to \<open>other\<close>.\<close>

fun groupTripSheets :: "DocumentData list \<Rightarrow> Groups \<times> string set \<Rightarrow> Groups \<times> string set" where
  "groupTripSheets [] st = st"
| "groupTripSheets (doc # rest) (groups, processedIds) =
     (if documentType doc = trip_sheet \<and> docId doc \<notin> processedIds then
        groupTripSheets rest
          (AList.update other (groupGet groups other @ [doc]) groups, insert (docId doc) processedIds)
      else groupTripSheets rest (groups, processedIds))"

definition groupByExpenseType :: "DocumentData list \<Rightarrow> (string \<rightharpoonup> string) \<Rightarrow> Groups" where
  "groupByExpenseType documents pairMap =
     fst (groupTripSheets documents
            (groupInvoices documents pairMap documents (map (\<lambda>t. (t, [])) typeKeys, {})))"

record DocumentUnit =
  primaryDoc :: DocumentData
  pairedDoc :: "DocumentData option"

text \<open>\<open>createDocumentUnits\<close>, with its list of units and its set of processed ids.\<close>

fun unitsLoop ::
  "DocumentData list \<Rightarrow> (string \<rightharpoonup> string) \<Rightarrow> DocumentData list \<Rightarrow> DocumentUnit list \<times> string set \<Rightarrow>
   DocumentUnit list \<times> string set" where
  "unitsLoop docs pairMap [] st = st"
| "unitsLoop docs pairMap (doc # rest) (units, processedIds) =
     (if docId doc \<in> processedIds then unitsLoop docs pairMap rest (units, processedIds)
      else if documentType doc = invoice then
        (let pairedTripSheet = findPairedTripSheet pairMap docs doc;
             units1 = units @ [\<lparr>primaryDoc = doc, pairedDoc = pairedTripSheet\<rparr>];
             processedIds1 = insert (docId doc) processedIds
         in case pairedTripSheet of
              Some p \<Rightarrow> unitsLoop docs pairMap rest (units1, insert (docId p) processedIds1)
            | None \<Rightarrow> unitsLoop docs pairMap rest (units1, processedIds1))
      else unitsLoop docs pairMap rest
             (units @ [\<lparr>primaryDoc = doc, pairedDoc = None\<rparr>], insert (docId doc) processedIds))"

definition createDocumentUnits :: "DocumentData list \<Rightarrow> (string \<rightharpoonup> string) \<Rightarrow> DocumentUnit list" where
  "createDocumentUnits docs pairMap = fst (unitsLoop docs pairMap docs ([], {}))"

text \<open>The comparator of \<open>units.sort\<close> in \<open>sortGroupsByDate\<close>.\<close>

definition compareUnits :: "TimeZone \<Rightarrow> int \<Rightarrow> DocumentUnit \<Rightarrow> DocumentUnit \<Rightarrow> int" where
  "compareUnits tz cy a b =
     (case (parseDate tz cy (date (primaryDoc a)), parseDate tz cy (date (primaryDoc b))) of
        (None, None) \<Rightarrow> 0
      | (None, Some dateB) \<Rightarrow> 1
      | (Some dateA, None) \<Rightarrow> - 1
      | (Some dateA, Some dateB) \<Rightarrow> dateA - dateB)"

definition sortUnits :: "TimeZone \<Rightarrow> int \<Rightarrow> DocumentUnit list \<Rightarrow> DocumentUnit list" where
  "sortUnits tz cy units = stableSort (\<lambda>a b. compareUnits tz cy a b \<le> 0) units"

text \<open>
  The order asked of a bucket: ascending by the parsed date of the primary document,
  a unit whose date does not parse after every unit whose date does.
\<close>

definition unitLe :: "TimeZone \<Rightarrow> int \<Rightarrow> DocumentUnit \<Rightarrow> DocumentUnit \<Rightarrow> bool" where
  "unitLe tz cy a b =
     (case parseDate tz cy (date (primaryDoc b)) of
        None \<Rightarrow> True
      | Some dateB \<Rightarrow>
          (case parseDate tz cy (date (primaryDoc a)) of None \<Rightarrow> False | Some dateA \<Rightarrow> dateA \<le> dateB))"

text \<open>Units back to documents: the primary document, then the paired one.\<close>

definition flattenUnits :: "DocumentUnit list \<Rightarrow> DocumentData list" where
  "flattenUnits units =
     concat (map (\<lambda>unit. primaryDoc unit # (case pairedDoc unit of Some p \<Rightarrow> [p] | None \<Rightarrow> [])) units)"

text \<open>
  \<open>sortGroupsByDate\<close>: \<open>groups.forEach\<close> visits the keys in insertion order and sets
  each key of the new map once, so the new map has the same keys in the same order.
\<close>

definition sortGroupsByDate :: "TimeZone \<Rightarrow> int \<Rightarrow> Groups \<Rightarrow> (string \<rightharpoonup> string) \<Rightarrow> Groups" where
  "sortGroupsByDate tz cy groups pairMap =
     map (\<lambda>(type, docs).
            if docs = [] then (type, [])
            else (type, flattenUnits (sortUnits tz cy (createDocumentUnits docs pairMap))))
         groups"

definition generateFinalOrder :: "Groups \<Rightarrow> string list" where
  "generateFinalOrder sortedGroups =
     (let sortedTypes = stableSort (\<lambda>a b. typePriority a - typePriority b \<le> 0) (map fst sortedGroups)
      in concat (map (\<lambda>type. map docId (groupGet sortedGroups type)) sortedTypes))"

definition generateGroupingInfo :: "Groups \<Rightarrow> (InvoiceType \<times> string list) list" where
  "generateGroupingInfo sortedGroups =
     map (\<lambda>(type, docs). (type, map docId docs)) (filter (\<lambda>(type, docs). docs \<noteq> []) sortedGroups)"

definition sortDocuments :: "TimeZone \<Rightarrow> int \<Rightarrow> DocumentData list \<Rightarrow> PairingResult \<Rightarrow> SortingResult" where
  "sortDocuments tz cy documents pairingResult =
     (let pairMap = createPairMap pairingResult;
          groups = groupByExpenseType documents pairMap;
          sortedGroups = sortGroupsByDate tz cy groups pairMap
      in \<lparr>suggestedOrder = generateFinalOrder sortedGroups,
          grouping = generateGroupingInfo sortedGroups\<rparr>)"

subsection \<open>AnomalyDetector\<close>

datatype WarningType = duplicate | amount_anomaly | date_gap | missing_pair

datatype Severity = low | medium | high

datatype Direction = TooLow | TooHigh | RatherLow | RatherHigh

text \<open>
  The messages, by their parts: the duplicated invoice number; the amount-and-date
  key of a suspected duplicate; the type, direction, amount and median of an amount
  anomaly; the two dates and the gap in days; the file name of an unpaired document.
\<close>

datatype WarningMessage =
    DuplicateNumber string
  | DuplicateAmountDate "bool \<times> nat" string
  | AmountMessage InvoiceType Direction rat rat
  | GapMessage int int int
  | MissingTripSheet string
  | MissingInvoice string

record Warning =
  wtype :: WarningType
  message :: WarningMessage
  documentIds :: "string list"
  severity :: Severity

text \<open>
  A \<open>Map<K, DocumentData[]>\<close> filled by "create the empty array at the first
  occurrence of the key, then push": an association list in insertion order.
\<close>

definition pushTo :: "'k \<Rightarrow> DocumentData \<Rightarrow> ('k \<times> DocumentData list) list \<Rightarrow> ('k \<times> DocumentData list) list" where
  "pushTo key doc m =
     AList.update key ((case map_of m key of Some docs \<Rightarrow> docs | None \<Rightarrow> []) @ [doc]) m"

text \<open>The truthiness of an optional string: present and not empty.\<close>

definition truthy :: "string option \<Rightarrow> bool" where
  "truthy s = (case s of Some v \<Rightarrow> v \<noteq> [] | None \<Rightarrow> False)"

text \<open>
  \<open>amount.toFixed(2)\<close>, as the sign that is printed and the number of hundredths:
  the magnitude is rounded to the nearest hundredth, a tie upwards.
\<close>

definition toFixed2 :: "rat \<Rightarrow> bool \<times> nat" where
  "toFixed2 x = (x < 0, nat \<lfloor>\<bar>x\<bar> * 100 + 1 / 2\<rfloor>)"

definition invoicesByNumber :: "DocumentData list \<Rightarrow> (string \<times> DocumentData list) list" where
  "invoicesByNumber invoices =
     foldl (\<lambda>m invoiceDoc. if truthy (invoiceNumber invoiceDoc)
                             then pushTo (orEmpty (invoiceNumber invoiceDoc)) invoiceDoc m else m)
       [] invoices"

definition invoicesByAmountDate ::
  "(string \<times> DocumentData list) list \<Rightarrow> DocumentData list \<Rightarrow> (((bool \<times> nat) \<times> string) \<times> DocumentData list) list" where
  "invoicesByAmountDate byNumber invoices =
     foldl (\<lambda>m invoiceDoc.
              if \<not> truthy (invoiceNumber invoiceDoc)
                 \<or> (case map_of byNumber (orEmpty (invoiceNumber invoiceDoc)) of
                       None \<Rightarrow> True | Some docs \<Rightarrow> length docs = 1)
              then pushTo (toFixed2 (amount invoiceDoc), date invoiceDoc) invoiceDoc m else m)
       [] invoices"

definition detectDuplicates :: "DocumentData list \<Rightarrow> Warning list" where
  "detectDuplicates documents =
     (let invoices = filter (\<lambda>doc. documentType doc = invoice) documents;
          byNumber = invoicesByNumber invoices;
          byAmountDate = invoicesByAmountDate byNumber invoices
      in concat (map (\<lambda>(invoiceNumber, docs).
                   if length docs > 1 then
                     [\<lparr>wtype = duplicate, message = DuplicateNumber invoiceNumber,
                       documentIds = map docId docs, severity = high\<rparr>]
                   else []) byNumber)
         @ concat (map (\<lambda>((amountKey, dateKey), docs).
                   if length docs > 1 then
                     [\<lparr>wtype = duplicate, message = DuplicateAmountDate amountKey dateKey,
                       documentIds = map docId docs, severity = medium\<rparr>]
                   else []) byAmountDate))"

record AmountStats =
  mean :: rat
  median :: rat
  q1 :: rat
  q3 :: rat
  iqr :: rat
  minAmount :: rat
  maxAmount :: rat

text \<open>
  \<open>calculateAmountStats\<close> on the sorted amounts. \<open>Math.floor(n * 0.25)\<close> is
  \<open>n div 4\<close> and \<open>Math.floor(n * 0.75)\<close> is \<open>3 * n div 4\<close>. Its only caller passes
  at least two amounts, so every index is in range.
\<close>

definition calculateAmountStats :: "rat list \<Rightarrow> AmountStats" where
  "calculateAmountStats amounts =
     (let n = length amounts;
          q1Index = n div 4;
          q3Index = 3 * n div 4
      in \<lparr>mean = sum_list amounts / of_nat n,
          median = (if n mod 2 = 0 then (amounts ! (n div 2 - 1) + amounts ! (n div 2)) / 2
                    else amounts ! (n div 2)),
          q1 = amounts ! q1Index,
          q3 = amounts ! q3Index,
          iqr = amounts ! q3Index - amounts ! q1Index,
          minAmount = amounts ! 0,
          maxAmount = amounts ! (n - 1)\<rparr>)"

text \<open>\<open>isAmountAnomaly\<close>: the fences at 3 and at 1.5 interquartile ranges.\<close>

definition isAmountAnomaly :: "rat \<Rightarrow> AmountStats \<Rightarrow> InvoiceType \<Rightarrow> (WarningMessage \<times> Severity) option" where
  "isAmountAnomaly a stats type =
     (let lowerBound = q1 stats - (3 / 2) * iqr stats;
          upperBound = q3 stats + (3 / 2) * iqr stats;
          extremeLowerBound = q1 stats - 3 * iqr stats;
          extremeUpperBound = q3 stats + 3 * iqr stats
      in if a < extremeLowerBound \<or> a > extremeUpperBound then
           Some (AmountMessage type (if a < extremeLowerBound then TooLow else TooHigh) a (median stats),
                 high)
         else if a < lowerBound \<or> a > upperBound then
           Some (AmountMessage type (if a < lowerBound then RatherLow else RatherHigh) a (median stats),
                 medium)
         else None)"

definition invoicesByType :: "DocumentData list \<Rightarrow> (InvoiceType \<times> DocumentData list) list" where
  "invoicesByType invoices = foldl (\<lambda>m invoiceDoc. pushTo (typeOrOther invoiceDoc) invoiceDoc m) [] invoices"

definition detectAmountAnomalies :: "DocumentData list \<Rightarrow> Warning list" where
  "detectAmountAnomalies documents =
     (let invoices = filter (\<lambda>doc. documentType doc = invoice) documents
      in concat (map (\<lambda>(type, typeInvoices).
           if length typeInvoices < 2 then []
           else
             (let amounts = stableSort (\<lambda>a b. a - b \<le> 0) (map amount typeInvoices);
                  stats = calculateAmountStats amounts
              in concat (map (\<lambda>invoiceDoc.
                   case isAmountAnomaly (amount invoiceDoc) stats type of
                     Some (msg, sev) \<Rightarrow>
                       [\<lparr>wtype = amount_anomaly, message = msg,
                         documentIds = [docId invoiceDoc], severity = sev\<rparr>]
                   | None \<Rightarrow> []) typeInvoices)))
         (invoicesByType invoices)))"

text \<open>\<open>calculateDaysDiff\<close>\<close>

definition calculateDaysDiff :: "int \<Rightarrow> int \<Rightarrow> int" where
  "calculateDaysDiff date1 date2 = \<bar>date2 - date1\<bar> div msPerDay"

text \<open>The documents with a parseable date, each with its date, sorted by the date.\<close>

definition docsWithDates :: "TimeZone \<Rightarrow> int \<Rightarrow> DocumentData list \<Rightarrow> (DocumentData \<times> int) list" where
  "docsWithDates tz cy documents =
     stableSort (\<lambda>a b. snd a - snd b \<le> 0)
       (concat (map (\<lambda>doc. case parseDate tz cy (date doc) of Some d \<Rightarrow> [(doc, d)] | None \<Rightarrow> [])
                    documents))"

definition gapSeverity :: "int \<Rightarrow> Severity" where
  "gapSeverity gapDays = (if gapDays > 30 then high else if gapDays > 14 then medium else low)"

text \<open>The loop \<open>for (let i = 1; i < docsWithDates.length; i++)\<close> of \<open>detectDateGaps\<close>.\<close>

function gapLoop :: "(DocumentData \<times> int) list \<Rightarrow> nat \<Rightarrow> Warning list \<Rightarrow> Warning list" where
  "gapLoop ds i warnings =
     (if i < length ds then
        (let prev = ds ! (i - 1);
             curr = ds ! i;
             gapDays = calculateDaysDiff (snd prev) (snd curr)
         in gapLoop ds (i + 1)
              (if gapDays > 7 then
                 warnings @ [\<lparr>wtype = date_gap, message = GapMessage (snd prev) (snd curr) gapDays,
                              documentIds = [docId (fst prev), docId (fst curr)],
                              severity = gapSeverity gapDays\<rparr>]
               else warnings))
      else warnings)"
  by pat_completeness auto
termination
  by (relation "measure (\<lambda>(ds, i, warnings). length ds - i)") auto

definition detectDateGaps :: "TimeZone \<Rightarrow> int \<Rightarrow> DocumentData list \<Rightarrow> Warning list" where
  "detectDateGaps tz cy documents =
     (let ds = docsWithDates tz cy documents
      in if length ds < 2 then [] else gapLoop ds 1 [])"

definition detectMissingPairs :: "DocumentData list \<Rightarrow> PairingResult \<Rightarrow> Warning list" where
  "detectMissingPairs documents pairingResult =
     concat (map (\<lambda>invoiceId.
               case find (\<lambda>d. docId d = invoiceId) documents of
                 Some invoiceDoc \<Rightarrow>
                   if invoiceType invoiceDoc = Some taxi then
                     [\<lparr>wtype = missing_pair, message = MissingTripSheet (fileName invoiceDoc),
                       documentIds = [invoiceId], severity = medium\<rparr>]
                   else []
               | None \<Rightarrow> []) (unmatchedInvoices pairingResult))
     @ concat (map (\<lambda>tripSheetId.
               case find (\<lambda>d. docId d = tripSheetId) documents of
                 Some tripSheet \<Rightarrow>
                   [\<lparr>wtype = missing_pair, message = MissingInvoice (fileName tripSheet),
                     documentIds = [tripSheetId], severity = medium\<rparr>]
               | None \<Rightarrow> []) (unmatchedTripSheets pairingResult))"

text \<open>\<open>detectAnomalies(documents, pairingResult?)\<close>: the four detectors in order.\<close>

definition detectAnomalies :: "TimeZone \<Rightarrow> int \<Rightarrow> DocumentData list \<Rightarrow> PairingResult option \<Rightarrow> Warning list" where
  "detectAnomalies tz cy documents pairingResult =
     detectDuplicates documents
     @ detectAmountAnomalies documents
     @ detectDateGaps tz cy documents
     @ (case pairingResult of Some r \<Rightarrow> detectMissingPairs documents r | None \<Rightarrow> [])"

text \<open>
  The loop of \<open>detectDateGaps\<close> on an ascending list, as a recursion over the
  consecutive elements: the gap is counted as the code counts it, in whole multiples
  of 86400000 ms between the two time values.
\<close>

fun gapWarnings :: "(DocumentData \<times> int) list \<Rightarrow> Warning list" where
  "gapWarnings (p # c # rest) =
     (let gapDays = (snd c - snd p) div msPerDay
      in (if gapDays > 7 then
            [\<lparr>wtype = date_gap, message = GapMessage (snd p) (snd c) gapDays,
              documentIds = [docId (fst p), docId (fst c)],
              severity = (if gapDays > 30 then high else if gapDays > 14 then medium else low)\<rparr>]
          else [])
         @ gapWarnings (c # rest))"
| "gapWarnings ds = []"

text \<open>
  The calendar day that a date string names, counted from 1970-01-01, for the strings
  that \<open>parseDate\<close> accepts: the date parsed in the zone \<open>utc\<close>, in whole days.
\<close>

definition calendarDay :: "int \<Rightarrow> string \<Rightarrow> int option" where
  "calendarDay cy dateStr = map_option (\<lambda>t. t div msPerDay) (parseDate utc cy dateStr)"

text \<open>
  The date-gap rule in the words of the specification. The documents of both kinds
  with a parseable date, each with its calendar day, in ascending order:
\<close>

definition datedDocuments :: "int \<Rightarrow> DocumentData list \<Rightarrow> (DocumentData \<times> int) list" where
  "datedDocuments cy documents =
     stableSort (\<lambda>a b. snd a \<le> snd b)
       (concat (map (\<lambda>doc. case calendarDay cy (date doc) of Some n \<Rightarrow> [(doc, n)] | None \<Rightarrow> [])
                    documents))"

text \<open>
  and, for each consecutive pair, the gap in days: more than 30 gives a high warning,
  more than 14 a medium one, more than 7 a low one, each naming both documents; a
  gap of 7 days or less gives nothing.
\<close>

fun gapRule :: "(DocumentData \<times> int) list \<Rightarrow> (string list \<times> Severity) list" where
  "gapRule (p # c # rest) =
     (let gap = snd c - snd p;
          ids = [docId (fst p), docId (fst c)]
      in (if gap > 30 then [(ids, high)]
          else if gap > 14 then [(ids, medium)]
          else if gap > 7 then [(ids, low)]
          else [])
         @ gapRule (c # rest))"
| "gapRule ds = []"

text \<open>Scenario D: four hotel invoices of 100, 102, 105 and 5000.\<close>

definition hotelInvoice :: "string \<Rightarrow> rat \<Rightarrow> string \<Rightarrow> DocumentData" where
  "hotelInvoice i a d = blankDocument\<lparr>docId := i, amount := a, date := d, invoiceType := Some hotel\<rparr>"

definition scenarioD :: "DocumentData list" where
  "scenarioD =
     [hotelInvoice ''h1'' 100 ''2024-03-01'', hotelInvoice ''h2'' 102 ''2024-03-02'',
      hotelInvoice ''h3'' 105 ''2024-03-03'', hotelInvoice ''h4'' 5000 ''2024-03-04'']"

text \<open>Scenario C: two documents dated 2024-01-01 and 2024-02-15.\<close>

definition scenarioC1 :: DocumentData where
  "scenarioC1 = blankDocument\<lparr>docId := ''c1'', amount := 20, date := ''2024-01-01''\<rparr>"

definition scenarioC2 :: DocumentData where
  "scenarioC2 = blankDocument\<lparr>docId := ''c2'', documentType := trip_sheet, amount := 35,
                  date := ''2024-02-15''\<rparr>"

definition scenarioC :: "DocumentData list" where
  "scenarioC = [scenarioC1, scenarioC2]"

text \<open>
  The zone America/New_York around 2024: five hours behind UTC, and four hours behind
  at the local midnights from 11 March to 3 November 2024 (daylight saving time
  began on 10 March at 2:00 and ended on 3 November at 2:00).
\<close>

definition newYork :: TimeZone where
  "newYork n = (if 19792 < n \<and> n \<le> 20030 then - 14400000 else - 18000000)"

text \<open>Two documents dated 2024-03-08 and 2024-03-16, eight days apart.\<close>

definition dstDocuments :: "DocumentData list" where
  "dstDocuments =
     [blankDocument\<lparr>docId := ''m1'', amount := 20, date := ''2024-03-08''\<rparr>,
      blankDocument\<lparr>docId := ''m2'', amount := 35, date := ''2024-03-16''\<rparr>]"

text \<open>The order of the dated documents.\<close>

definition dateLe :: "DocumentData \<times> int \<Rightarrow> DocumentData \<times> int \<Rightarrow> bool" where
  "dateLe a b = (snd a \<le> snd b)"

subsection \<open>AIService: the recognition call\<close>

record APIConfig =
  endpoint :: string
  apiKey :: string
  model :: string

text \<open>What \<open>recognizeDocument\<close> hands to \<open>axios.post\<close>, without the prompt text.\<close>

record AxiosRequest =
  url :: string
  authorization :: string
  requestModel :: string
  imageUrl :: string
  max_tokens :: nat
  timeout :: nat

definition buildRequest :: "APIConfig \<Rightarrow> string \<Rightarrow> AxiosRequest" where
  "buildRequest apiConfig imageBase64 =
     \<lparr>url = endpoint apiConfig @ ''/chat/completions'',
      authorization = ''Bearer '' @ apiKey apiConfig,
      requestModel = model apiConfig,
      imageUrl = ''data:image/jpeg;base64,'' @ imageBase64,
      max_tokens = 1000,
      timeout = TIMEOUT_MS\<rparr>"

text \<open>
  \<open>recognizeDocument\<close>. The network is the parameter \<open>post\<close>: the outcome of the
  request at attempt \<open>k\<close>, a thrown value or the content of the answer; parsing the
  content is the parameter \<open>parseAIResponse\<close>, \<open>None\<close> when it throws. Everything
  thrown inside \<open>operation\<close>, also the \<open>AIError\<close> of an empty or unparseable answer,
  goes through \<open>handleAPIError\<close>.
\<close>

definition recognizeDocument ::
  "(AxiosRequest \<Rightarrow> nat \<Rightarrow> Thrown + string) \<Rightarrow> (string \<Rightarrow> string \<Rightarrow> DocumentData option) \<Rightarrow>
   string \<Rightarrow> APIConfig \<Rightarrow> string \<Rightarrow> nat list \<times> (AIError + DocumentData)" where
  "recognizeDocument post parseAIResponse imageBase64 apiConfig name =
     retryWithBackoff
       (\<lambda>k. case post (buildRequest apiConfig imageBase64) k of
               Inl thrown \<Rightarrow> Inl (handleAPIError thrown)
             | Inr content \<Rightarrow>
                 (case parseAIResponse content name of
                    Some document \<Rightarrow> Inr document
                  | None \<Rightarrow> Inl (handleAPIError OtherError)))
       0"

subsection \<open>BatchProcessor\<close>

record MulterFile =
  originalname :: string
  mimetype :: string

text \<open>What \<open>processFile\<close> can throw, with the message.\<close>

datatype ProcessError = FileError string | AIErrorThrown string | PlainError string | UnknownThrown

text \<open>\<open>getErrorMessage\<close>; the prefixes and the last message are Chinese text in UTF-8.\<close>

definition getErrorMessage :: "ProcessError \<Rightarrow> string" where
  "getErrorMessage e = (case e of
       FileError m \<Rightarrow>
         [CHR 0xE6, CHR 0x96, CHR 0x87, CHR 0xE4, CHR 0xBB, CHR 0xB6, CHR 0xE9, CHR 0x94, CHR 0x99,
          CHR 0xE8, CHR 0xAF, CHR 0xAF] @ '': '' @ m
     | AIErrorThrown m \<Rightarrow>
         ''AI'' @ [CHR 0xE8, CHR 0xAF, CHR 0x86, CHR 0xE5, CHR 0x88, CHR 0xAB, CHR 0xE9, CHR 0x94,
          CHR 0x99, CHR 0xE8, CHR 0xAF, CHR 0xAF] @ '': '' @ m
     | PlainError m \<Rightarrow> m
     | UnknownThrown \<Rightarrow>
         [CHR 0xE6, CHR 0x9C, CHR 0xAA, CHR 0xE7, CHR 0x9F, CHR 0xA5, CHR 0xE9, CHR 0x94, CHR 0x99,
          CHR 0xE8, CHR 0xAF, CHR 0xAF])"

text \<open>
  \<open>createErrorDocument\<close>; the id \<open>error_<time>_<random>\<close> is the parameter \<open>newId\<close>.
\<close>

definition createErrorDocument :: "string \<Rightarrow> MulterFile \<Rightarrow> string \<Rightarrow> DocumentData" where
  "createErrorDocument newId file errorMsg =
     \<lparr>docId = newId,
      fileName = originalname file,
      fileType = (if mimetype file = ''application/pdf'' then pdfFile else imageFile),
      documentType = invoice,
      date = [],
      amount = 0,
      description = [],
      confidence = 0,
      invoiceNumber = None, vendor = None, taxAmount = None, invoiceType = None,
      tripDetails = None,
      status = error,
      errorMessage = Some errorMsg\<rparr>"

text \<open>
  The world of one batch: what \<open>processFile\<close> does for the file at an index (the
  documents of its pages, or what it throws), and the id generated for the error
  document of that file.
\<close>

record BatchEnv =
  processFile :: "nat \<Rightarrow> ProcessError + DocumentData list"
  errorDocId :: "nat \<Rightarrow> string"

datatype Stage = uploading | recognizing | pairing | sorting | detecting | finished | failed

text \<open>
  What the batch does in order: a progress notification (stage and current step),
  the start of the awaited \<open>processFile\<close> call for a file and its end.
\<close>

datatype Event = Progress Stage nat | RecognizeStart nat | RecognizeEnd nat

record BatchProcessResult =
  resultDocuments :: "DocumentData list"
  resultPairs :: PairingResult
  resultSorting :: SortingResult
  resultWarnings :: "Warning list"
  resultErrors :: "(string \<times> string) list"

text \<open>The error thrown when \<open>documents.length === 0\<close> after the recognition loop.\<close>

datatype BatchError = AllFilesFailed

text \<open>
  The loop \<open>for (let i = 0; i < files.length; i++)\<close>: each file is awaited before the
  next one starts; a file that throws leaves an entry in \<open>errors\<close> and an error
  document in \<open>documents\<close>.
\<close>

fun recognizeFiles ::
  "BatchEnv \<Rightarrow> nat \<Rightarrow> MulterFile list \<Rightarrow>
   DocumentData list \<times> (string \<times> string) list \<times> Event list \<Rightarrow>
   DocumentData list \<times> (string \<times> string) list \<times> Event list" where
  "recognizeFiles env i [] st = st"
| "recognizeFiles env i (file # rest) (docs, errs, events) =
     (let events1 = events @ [Progress recognizing (i + 1), RecognizeStart i]
      in case processFile env i of
           Inr processedDocuments \<Rightarrow>
             recognizeFiles env (i + 1) rest
               (docs @ processedDocuments, errs, events1 @ [RecognizeEnd i])
         | Inl thrown \<Rightarrow>
             (let errorMsg = getErrorMessage thrown
              in recognizeFiles env (i + 1) rest
                   (docs @ [createErrorDocument (errorDocId env i) file errorMsg],
                    errs @ [(originalname file, errorMsg)],
                    events1 @ [RecognizeEnd i])))"

definition processBatch ::
  "BatchEnv \<Rightarrow> TimeZone \<Rightarrow> int \<Rightarrow> MulterFile list \<Rightarrow>
   Event list \<times> (BatchError + BatchProcessResult)" where
  "processBatch env tz cy files =
     (let totalSteps = length files;
          (docs, errs, events) = recognizeFiles env 0 files ([], [], [Progress recognizing 0])
      in if length docs = 0 then (events @ [Progress failed 0], Inl AllFilesFailed)
         else
           (let pairingResult = pairDocuments tz cy docs;
                sortingResult = sortDocuments tz cy docs pairingResult;
                warningList = detectAnomalies tz cy docs (Some pairingResult)
            in (events @ [Progress pairing totalSteps, Progress sorting totalSteps,
                          Progress detecting totalSteps, Progress finished totalSteps],
                Inr \<lparr>resultDocuments = docs, resultPairs = pairingResult,
                     resultSorting = sortingResult, resultWarnings = warningList,
                     resultErrors = errs\<rparr>)))"

text \<open>The number of awaited recognition calls in flight after a trace, and its maximum over the trace.\<close>

fun inFlight :: "Event list \<Rightarrow> int" where
  "inFlight [] = 0"
| "inFlight (RecognizeStart i # es) = inFlight es + 1"
| "inFlight (RecognizeEnd i # es) = inFlight es - 1"
| "inFlight (Progress s n # es) = inFlight es"

definition maxInFlight :: "Event list \<Rightarrow> int" where
  "maxInFlight es = Max ((\<lambda>n. inFlight (take n es)) ` {0 .. length es})"

text \<open>A batch of two files whose recognition fails.\<close>

definition failingEnv :: BatchEnv where
  "failingEnv = \<lparr>processFile = (\<lambda>i. Inl (AIErrorThrown ''401'')),
                 errorDocId = (\<lambda>i. if i = 0 then ''error_0'' else ''error_1'')\<rparr>"

definition twoFiles :: "MulterFile list" where
  "twoFiles = [\<lparr>originalname = ''a.jpg'', mimetype = ''image/jpeg''\<rparr>,
               \<lparr>originalname = ''b.pdf'', mimetype = ''application/pdf''\<rparr>]"

definition configA :: APIConfig where
  "configA = \<lparr>endpoint = ''https://api.openai.com/v1'', apiKey = ''sk-aaaaaaaaaa'', model = ''gpt-4o''\<rparr>"

definition configB :: APIConfig where
  "configB = \<lparr>endpoint = ''https://example.org/v2'', apiKey = ''sk-bbbbbbbbbb'', model = ''other-model''\<rparr>"

text \<open>A network on which every request is answered with HTTP 503.\<close>

definition alwaysUnavailable :: "AxiosRequest \<Rightarrow> nat \<Rightarrow> Thrown + string" where
  "alwaysUnavailable request k = Inl (AxiosError None (Some 503))"

text \<open>
  A trace in which the awaited recognition calls never overlap: after every prefix
  none or one call is in flight, and none at the end.
\<close>

definition sequential :: "Event list \<Rightarrow> bool" where
  "sequential es = ((\<forall>n. 0 \<le> inFlight (take n es) \<and> inFlight (take n es) \<le> 1) \<and> inFlight es = 0)"

subsection \<open>Auxiliary notions for the order of the documents\<close>

text \<open>
  Pairs that are well formed for a document list: no id occurs twice among the
  invoice ids and trip-sheet ids of the pairs, every invoice id is the id of an invoice and
  every trip-sheet id the id of a trip sheet.
\<close>

definition goodPairs :: "DocumentData list \<Rightarrow> PairingPair list \<Rightarrow> bool" where
  "goodPairs ds ps =
     (distinct (map invoiceId ps @ map tripSheetId ps)
      \<and> set (map invoiceId ps) \<subseteq> docId ` set (filter (\<lambda>doc. documentType doc = invoice) ds)
      \<and> set (map tripSheetId ps) \<subseteq> docId ` set (filter (\<lambda>doc. documentType doc = trip_sheet) ds))"

text \<open>
  What the first loop of \<open>groupByExpenseType\<close> pushes for an invoice: the invoice, then the
  trip sheet found for it.
\<close>

definition unitDocs :: "(string \<rightharpoonup> string) \<Rightarrow> DocumentData list \<Rightarrow> DocumentData \<Rightarrow> DocumentData list" where
  "unitDocs pairMap docs doc =
     doc # (case findPairedTripSheet pairMap docs doc of Some ts \<Rightarrow> [ts] | None \<Rightarrow> [])"

text \<open>
  The trip sheets found for the invoices of a list are trip sheets of the list, one and
  the same trip sheet is never found for two invoices, and none is found for a trip sheet.
\<close>

definition partnersOK :: "(string \<rightharpoonup> string) \<Rightarrow> DocumentData list \<Rightarrow> bool" where
  "partnersOK pairMap docs =
     ((\<forall>d ts. d \<in> set docs \<and> documentType d = invoice \<and> findPairedTripSheet pairMap docs d = Some ts
          \<longrightarrow> ts \<in> set docs \<and> documentType ts = trip_sheet)
      \<and> (\<forall>d1 d2 ts. d1 \<in> set docs \<and> d2 \<in> set docs \<and> documentType d1 = invoice \<and> documentType d2 = invoice
          \<and> findPairedTripSheet pairMap docs d1 = Some ts \<and> findPairedTripSheet pairMap docs d2 = Some ts
          \<longrightarrow> d1 = d2))"

text \<open>The invoices of a bucket, in document order.\<close>

definition invoicesOfType :: "DocumentData list \<Rightarrow> InvoiceType \<Rightarrow> DocumentData list" where
  "invoicesOfType docs t = filter (\<lambda>d. documentType d = invoice \<and> typeOrOther d = t) docs"

text \<open>The trip sheets found for some invoice, in the order of their invoices.\<close>

definition pairedTripSheets :: "(string \<rightharpoonup> string) \<Rightarrow> DocumentData list \<Rightarrow> DocumentData list" where
  "pairedTripSheets pairMap docs =
     concat (map (\<lambda>d. case findPairedTripSheet pairMap docs d of Some ts \<Rightarrow> [ts] | None \<Rightarrow> [])
                 (filter (\<lambda>d. documentType d = invoice) docs))"

text \<open>The trip sheets left for the second loop of \<open>groupByExpenseType\<close>.\<close>

definition loneTripSheets :: "(string \<rightharpoonup> string) \<Rightarrow> DocumentData list \<Rightarrow> DocumentData list" where
  "loneTripSheets pairMap docs =
     filter (\<lambda>d. d \<notin> set (pairedTripSheets pairMap docs)) (filter (\<lambda>d. documentType d = trip_sheet) docs)"

text \<open>
  The units of a bucket: its invoices with their trip sheets, then in \<open>other\<close> the lone
  trip sheets.
\<close>

definition unitsOfType :: "(string \<rightharpoonup> string) \<Rightarrow> DocumentData list \<Rightarrow> InvoiceType \<Rightarrow> DocumentUnit list" where
  "unitsOfType pairMap docs t =
     map (\<lambda>d. \<lparr>primaryDoc = d, pairedDoc = findPairedTripSheet pairMap docs d\<rparr>) (invoicesOfType docs t)
     @ map (\<lambda>d. \<lparr>primaryDoc = d, pairedDoc = None\<rparr>) (if t = other then loneTripSheets pairMap docs else [])"

text \<open>
  The units of a bucket in the words of the specification. The trip sheet paired with
  an invoice is the document that the pair of the invoice names:
\<close>

definition pairedTripSheetOf :: "PairingPair list \<Rightarrow> DocumentData list \<Rightarrow> DocumentData \<Rightarrow> DocumentData option" where
  "pairedTripSheetOf ps docs d =
     (case find (\<lambda>p. invoiceId p = docId d) ps of
        None \<Rightarrow> None
      | Some p \<Rightarrow> find (\<lambda>ts. docId ts = tripSheetId p) docs)"

text \<open>
  and the units of the bucket of a category are its invoices in document order, each
  with its paired trip sheet, followed in the bucket \<open>other\<close> by the trip sheets that
  no pair names, each on its own.
\<close>

definition bucketUnits :: "PairingPair list \<Rightarrow> DocumentData list \<Rightarrow> InvoiceType \<Rightarrow> DocumentUnit list" where
  "bucketUnits ps docs t =
     map (\<lambda>d. \<lparr>primaryDoc = d, pairedDoc = pairedTripSheetOf ps docs d\<rparr>)
         (filter (\<lambda>d. documentType d = invoice \<and> typeOrOther d = t) docs)
     @ (if t = other then
          map (\<lambda>d. \<lparr>primaryDoc = d, pairedDoc = None\<rparr>)
              (filter (\<lambda>d. documentType d = trip_sheet \<and> docId d \<notin> set (map tripSheetId ps)) docs)
        else [])"

text \<open>
  The ids that a unit contributes to the order: the id of the invoice (or of the lone
  document), then the id of its paired trip sheet.
\<close>

definition unitIds :: "DocumentUnit \<Rightarrow> string list" where
  "unitIds unit = docId (primaryDoc unit) # (case pairedDoc unit of Some p \<Rightarrow> [docId p] | None \<Rightarrow> [])"

text \<open>
  Three documents in which the paired trip sheet is dated before, and its invoice after,
  another invoice of the same category.
\<close>

definition reorderDocuments :: "DocumentData list" where
  "reorderDocuments =
     [blankDocument\<lparr>docId := ''tripA'', documentType := trip_sheet, amount := 80, date := ''2024-11-01''\<rparr>,
      blankDocument\<lparr>docId := ''invA'', amount := 80, date := ''2024-11-05'', invoiceType := Some taxi\<rparr>,
      blankDocument\<lparr>docId := ''invB'', amount := 35, date := ''2024-11-03'', invoiceType := Some taxi\<rparr>]"



subsection \<open>Auxiliary notions for the error placeholders\<close>







section \<open>Properties\<close>

subsection \<open>Retry with exponential backoff\<close>

declare retryWithBackoff.simps [simp del]

lemma retry_Inr: "operation c = Inr v \<Longrightarrow> retryWithBackoff operation c = ([], Inr v)"
  by (simp add: retryWithBackoff.simps[of operation c])

lemma retry_stop:
  "operation c = Inl e \<Longrightarrow> \<not> (retryable e \<and> c < MAX_RETRIES) \<Longrightarrow>
     retryWithBackoff operation c = ([], Inl e)"
  by (cases "retryable e") (simp_all add: retryWithBackoff.simps[of operation c])

lemma retry_again:
  "operation c = Inl e \<Longrightarrow> retryable e \<and> c < MAX_RETRIES \<Longrightarrow>
     retryWithBackoff operation c =
       (INITIAL_RETRY_DELAY * 2 ^ c # fst (retryWithBackoff operation (c + 1)),
        snd (retryWithBackoff operation (c + 1)))"
  by (simp add: retryWithBackoff.simps[of operation c] Let_def)

lemma retry_len: "c \<le> MAX_RETRIES \<Longrightarrow> c + length (fst (retryWithBackoff operation c)) \<le> MAX_RETRIES"
proof (induction operation c rule: retryWithBackoff.induct)
  case (1 operation retryCount)
  show ?case
  proof (cases "operation retryCount")
    case (Inr v)
    then show ?thesis using 1(2) by (simp add: retry_Inr)
  next
    case (Inl e)
    show ?thesis
    proof (cases "retryable e \<and> retryCount < MAX_RETRIES")
      case True
      then have "retryCount + 1 + length (fst (retryWithBackoff operation (retryCount + 1))) \<le> MAX_RETRIES"
        using 1(1)[OF Inl True refl] by simp
      then show ?thesis by (simp add: retry_again[of operation retryCount _, OF Inl True])
    next
      case False
      then show ?thesis using 1(2) by (simp add: retry_stop[of operation retryCount _, OF Inl False])
    qed
  qed
qed

lemma retry_delays:
  "i < length (fst (retryWithBackoff operation c)) \<Longrightarrow>
     fst (retryWithBackoff operation c) ! i = INITIAL_RETRY_DELAY * 2 ^ (c + i)"
proof (induction operation c arbitrary: i rule: retryWithBackoff.induct)
  case (1 operation retryCount)
  show ?case
  proof (cases "operation retryCount")
    case (Inr v)
    then show ?thesis using 1(2) by (simp add: retry_Inr)
  next
    case (Inl e)
    show ?thesis
    proof (cases "retryable e \<and> retryCount < MAX_RETRIES")
      case True
      show ?thesis
      proof (cases i)
        case 0
        then show ?thesis by (simp add: retry_again[of operation retryCount _, OF Inl True])
      next
        case (Suc j)
        then have "j < length (fst (retryWithBackoff operation (retryCount + 1)))"
          using 1(2) by (simp add: retry_again[of operation retryCount _, OF Inl True])
        from 1(1)[OF Inl True refl this] show ?thesis using Suc
          by (simp add: retry_again[of operation retryCount _, OF Inl True])
      qed
    next
      case False
      then show ?thesis using 1(2) by (simp add: retry_stop[of operation retryCount _, OF Inl False])
    qed
  qed
qed

lemma retry_failures:
  "c \<le> k \<Longrightarrow> k < c + length (fst (retryWithBackoff operation c)) \<Longrightarrow>
     \<exists>e. operation k = Inl e \<and> retryable e"
proof (induction operation c rule: retryWithBackoff.induct)
  case (1 operation retryCount)
  show ?case
  proof (cases "operation retryCount")
    case (Inr v)
    then show ?thesis using 1(2,3) by (simp add: retry_Inr)
  next
    case (Inl e)
    show ?thesis
    proof (cases "retryable e \<and> retryCount < MAX_RETRIES")
      case True
      show ?thesis
      proof (cases "k = retryCount")
        case True
        then show ?thesis using Inl \<open>retryable e \<and> retryCount < MAX_RETRIES\<close> by simp
      next
        case False
        then show ?thesis using 1(1)[OF Inl True refl] 1(2,3) by (simp add: retry_again[of operation retryCount _, OF Inl True])
      qed
    next
      case False
      then show ?thesis using 1(2,3) by (simp add: retry_stop[of operation retryCount _, OF Inl False])
    qed
  qed
qed

lemma retry_result:
  "snd (retryWithBackoff operation c) = operation (c + length (fst (retryWithBackoff operation c)))"
proof (induction operation c rule: retryWithBackoff.induct)
  case (1 operation retryCount)
  show ?case
  proof (cases "operation retryCount")
    case (Inr v)
    then show ?thesis by (simp add: retry_Inr)
  next
    case (Inl e)
    show ?thesis
    proof (cases "retryable e \<and> retryCount < MAX_RETRIES")
      case True
      then show ?thesis using 1[OF Inl True refl] by (simp add: retry_again[of operation retryCount _, OF Inl True])
    next
      case False
      then show ?thesis using Inl by (simp add: retry_stop[of operation retryCount _, OF Inl False])
    qed
  qed
qed

lemma retry_exhausted:
  "c \<le> MAX_RETRIES \<Longrightarrow> operation (c + length (fst (retryWithBackoff operation c))) = Inl e \<Longrightarrow> retryable e \<Longrightarrow>
     c + length (fst (retryWithBackoff operation c)) = MAX_RETRIES"
proof (induction operation c rule: retryWithBackoff.induct)
  case (1 operation retryCount)
  show ?case
  proof (cases "operation retryCount")
    case (Inr v)
    then show ?thesis using 1(2,3,4) by (simp add: retry_Inr)
  next
    case (Inl e')
    show ?thesis
    proof (cases "retryable e' \<and> retryCount < MAX_RETRIES")
      case True
      show ?thesis using 1(1)[OF Inl True refl] 1(2,3,4) True by (simp add: retry_again[of operation retryCount _, OF Inl True])
    next
      case False
      have st: "fst (retryWithBackoff operation retryCount) = []"
        by (simp add: retry_stop[of operation retryCount _, OF Inl False])
      have "e' = e" using 1(3) Inl by (simp add: st)
      then have "retryCount = MAX_RETRIES" using False 1(2,4) by simp
      then show ?thesis unfolding st by simp
    qed
  qed
qed

text \<open>
  Claim C8. A recognition call that fails with a retryable error is retried at most
  3 times; the delay waited before retry number \<open>i + 1\<close> is \<open>1000 * 2 ^ i\<close>
  milliseconds (1000, 2000, 4000); every retry follows a retryable failure; the value
  or error of the last attempt is the result; a retryable failure is given up only
  after the third retry; and a non-retryable failure of the first attempt (an invalid
  credential, HTTP 401, is classified so) is thrown at once, with no delay and no retry.
\<close>

theorem retry_policy:
  fixes operation :: "nat \<Rightarrow> AIError + 'a"
  defines "r \<equiv> retryWithBackoff operation 0"
  shows "length (fst r) \<le> 3
       \<and> (\<forall>i < length (fst r). fst r ! i = 1000 * 2 ^ i)
       \<and> (\<forall>k < length (fst r). \<exists>e. operation k = Inl e \<and> retryable e)
       \<and> snd r = operation (length (fst r))
       \<and> (\<forall>e. operation (length (fst r)) = Inl e \<and> retryable e \<longrightarrow> length (fst r) = 3)
       \<and> (\<forall>e. operation 0 = Inl e \<and> \<not> retryable e \<longrightarrow> r = ([], Inl e))
       \<and> \<not> retryable (handleAPIError (AxiosError None (Some 401)))"
proof -
  have a: "length (fst r) \<le> 3" using retry_len[of 0 operation] by (simp add: r_def MAX_RETRIES_def)
  have b: "\<forall>i < length (fst r). fst r ! i = 1000 * 2 ^ i"
    using retry_delays[of _ operation 0] by (simp add: r_def INITIAL_RETRY_DELAY_def)
  have c: "\<forall>k < length (fst r). \<exists>e. operation k = Inl e \<and> retryable e"
    using retry_failures[of 0 _ operation] by (simp add: r_def)
  have d: "snd r = operation (length (fst r))"
    using retry_result[of operation 0] by (simp add: r_def)
  have e: "\<forall>e. operation (length (fst r)) = Inl e \<and> retryable e \<longrightarrow> length (fst r) = 3"
    using retry_exhausted[of 0 operation] by (simp add: r_def MAX_RETRIES_def)
  have f: "\<forall>e. operation 0 = Inl e \<and> \<not> retryable e \<longrightarrow> r = ([], Inl e)"
    by (simp add: r_def retry_stop)
  have g: "\<not> retryable (handleAPIError (AxiosError None (Some 401)))" by simp
  show ?thesis using a b c d e f g by blast
qed

theorem retry_policy_witness:
  "retryWithBackoff alwaysTimeout 0 = ([1000, 2000, 4000], Inl \<lparr>errType = TIMEOUT, retryable = True\<rparr>)"
proof -
  have r: "retryable (handleAPIError (AxiosError (Some ''ETIMEDOUT'') None))" by simp
  have l: "length (fst (retryWithBackoff alwaysTimeout 0)) = 3"
    using retry_policy[of alwaysTimeout] r by (simp add: alwaysTimeout_def)
  obtain a b c where ds: "fst (retryWithBackoff alwaysTimeout 0) = [a, b, c]"
    using l by (auto simp: length_Suc_conv numeral_3_eq_3)
  show ?thesis using retry_policy[of alwaysTimeout] ds
    by (simp add: alwaysTimeout_def prod_eq_iff All_less_Suc numeral_3_eq_3)
qed

subsection \<open>Pairing\<close>

lemma scan_result:
  "scanTripSheets tz cy invoiceDoc matched ts best = Some x \<Longrightarrow>
     best = Some x \<or> (fst x \<in> set ts \<and> docId (fst x) \<notin> matched)"
proof (induction ts arbitrary: best)
  case Nil
  then show ?case by simp
next
  case (Cons t ts)
  show ?case
  proof (cases "docId t \<in> matched")
    case True
    then show ?thesis using Cons by auto
  next
    case False
    obtain score reason where sc: "calculateMatchScore tz cy invoiceDoc t = (score, reason)"
      by (cases "calculateMatchScore tz cy invoiceDoc t")
    show ?thesis
    proof (cases "score \<ge> 50 \<and> (case best of None \<Rightarrow> True | Some (t, s, r) \<Rightarrow> score > s)")
      case True
      then have "scanTripSheets tz cy invoiceDoc matched ts (Some (t, score, reason)) = Some x"
        using Cons.prems False sc by simp
      from Cons.IH[OF this] show ?thesis using False by auto
    next
      case F2: False
      then have "scanTripSheets tz cy invoiceDoc matched ts best = Some x"
        using Cons.prems False sc by auto
      from Cons.IH[OF this] show ?thesis by auto
    qed
  qed
qed

lemma scan_None:
  "scanTripSheets tz cy invoiceDoc matched ts None = Some (t, s, r) \<Longrightarrow>
     t \<in> set ts \<and> docId t \<notin> matched"
  using scan_result[of tz cy invoiceDoc matched ts None "(t, s, r)"] by simp

lemma pairLoop_Cons_None:
  "scanTripSheets tz cy i (matchedTripSheetIds st) ts None = None \<Longrightarrow>
     pairLoop tz cy ts (i # rest) st = pairLoop tz cy ts rest st"
  by simp

lemma pairLoop_Cons_Some:
  "scanTripSheets tz cy i (matchedTripSheetIds st) ts None = Some m \<Longrightarrow>
     pairLoop tz cy ts (i # rest) st = pairLoop tz cy ts rest (addPair i m st)"
  by simp

declare pairLoop.simps(2) [simp del]

lemma addPair_simps:
  "statePairs (addPair i m st) = statePairs st @
        [\<lparr>invoiceId = docId i, tripSheetId = docId (fst m),
          pairConfidence = fst (snd m), matchReason = snd (snd m)\<rparr>]"
  "matchedInvoiceIds (addPair i m st) = insert (docId i) (matchedInvoiceIds st)"
  "matchedTripSheetIds (addPair i m st) = insert (docId (fst m)) (matchedTripSheetIds st)"
  by (simp_all add: addPair_def)

lemma pairLoop_induct [case_names Nil NoMatch Match]:
  assumes "\<And>st. P [] st"
    and "\<And>i rest st. scanTripSheets tz cy i (matchedTripSheetIds st) ts None = None \<Longrightarrow>
            P rest st \<Longrightarrow> P (i # rest) st"
    and "\<And>i rest st m. scanTripSheets tz cy i (matchedTripSheetIds st) ts None = Some m \<Longrightarrow>
            P rest (addPair i m st) \<Longrightarrow> P (i # rest) st"
  shows "P invs st"
proof (induction invs arbitrary: st)
  case Nil
  show ?case by (rule assms(1))
next
  case (Cons i rest)
  show ?case
  proof (cases "scanTripSheets tz cy i (matchedTripSheetIds st) ts None")
    case None
    then show ?thesis using assms(2) Cons by blast
  next
    case (Some m)
    then show ?thesis using assms(3) Cons by blast
  qed
qed

lemma matchedInvoice_mono:
  "matchedInvoiceIds st \<subseteq> matchedInvoiceIds (pairLoop tz cy ts invs st)"
proof (induction invs st rule: pairLoop_induct[where tz=tz and cy=cy and ts=ts])
  case (Nil st)
  show ?case by simp
next
  case (NoMatch i rest st)
  then show ?case by (simp only: pairLoop_Cons_None)
next
  case (Match i rest st m)
  then show ?case by (auto simp only: pairLoop_Cons_Some addPair_simps)
qed

lemma matchedInvoice_upper:
  "matchedInvoiceIds (pairLoop tz cy ts invs st) \<subseteq> matchedInvoiceIds st \<union> docId ` set invs"
proof (induction invs st rule: pairLoop_induct[where tz=tz and cy=cy and ts=ts])
  case (Nil st)
  show ?case by simp
next
  case (NoMatch i rest st)
  then show ?case by (auto simp only: pairLoop_Cons_None set_simps image_insert)
next
  case (Match i rest st m)
  then show ?case by (auto simp only: pairLoop_Cons_Some addPair_simps set_simps image_insert)
qed

lemma matchedInvoice_pairs:
  "matchedInvoiceIds st = set (map invoiceId (statePairs st)) \<Longrightarrow>
   matchedInvoiceIds (pairLoop tz cy ts invs st) = set (map invoiceId (statePairs (pairLoop tz cy ts invs st)))"
proof (induction invs st rule: pairLoop_induct[where tz=tz and cy=cy and ts=ts])
  case (Nil st)
  then show ?case by simp
next
  case (NoMatch i rest st)
  then show ?case by (simp only: pairLoop_Cons_None)
next
  case (Match i rest st m)
  have "matchedInvoiceIds (addPair i m st) = set (map invoiceId (statePairs (addPair i m st)))"
    using Match.prems by (simp add: addPair_simps)
  from Match.IH[OF this] show ?case by (simp only: pairLoop_Cons_Some[OF Match.hyps])
qed

lemma matchedTrip_pairs:
  "matchedTripSheetIds st = set (map tripSheetId (statePairs st)) \<Longrightarrow>
   matchedTripSheetIds (pairLoop tz cy ts invs st) = set (map tripSheetId (statePairs (pairLoop tz cy ts invs st)))"
proof (induction invs st rule: pairLoop_induct[where tz=tz and cy=cy and ts=ts])
  case (Nil st)
  then show ?case by simp
next
  case (NoMatch i rest st)
  then show ?case by (simp only: pairLoop_Cons_None)
next
  case (Match i rest st m)
  have "matchedTripSheetIds (addPair i m st) = set (map tripSheetId (statePairs (addPair i m st)))"
    using Match.prems by (simp add: addPair_simps)
  from Match.IH[OF this] show ?case by (simp only: pairLoop_Cons_Some[OF Match.hyps])
qed

lemma invoiceIds_pairs:
  "distinct (map docId invs) \<Longrightarrow> docId ` set invs \<inter> matchedInvoiceIds st = {} \<Longrightarrow>
   map invoiceId (statePairs (pairLoop tz cy ts invs st)) =
     map invoiceId (statePairs st) @
     map docId (filter (\<lambda>i. docId i \<in> matchedInvoiceIds (pairLoop tz cy ts invs st)) invs)"
proof (induction invs st rule: pairLoop_induct[where tz=tz and cy=cy and ts=ts])
  case (Nil st)
  show ?case by simp
next
  case (NoMatch i rest st)
  have d: "distinct (map docId rest)" and n: "docId i \<notin> docId ` set rest"
    and m: "docId i \<notin> matchedInvoiceIds st" and r: "docId ` set rest \<inter> matchedInvoiceIds st = {}"
    using NoMatch.prems by auto
  have "docId i \<notin> matchedInvoiceIds (pairLoop tz cy ts rest st)"
    using matchedInvoice_upper[of tz cy ts rest st] n m by blast
  then show ?case using NoMatch.IH[OF d r]
    by (simp add: pairLoop_Cons_None[OF NoMatch.hyps])
next
  case (Match i rest st m)
  have d: "distinct (map docId rest)" and n: "docId i \<notin> docId ` set rest"
    and r: "docId ` set rest \<inter> matchedInvoiceIds st = {}"
    using Match.prems by auto
  have r': "docId ` set rest \<inter> matchedInvoiceIds (addPair i m st) = {}"
    using r n by (auto simp: addPair_simps)
  have "docId i \<in> matchedInvoiceIds (pairLoop tz cy ts rest (addPair i m st))"
    using matchedInvoice_mono[of "addPair i m st" tz cy ts rest] by (auto simp: addPair_simps)
  then show ?case using Match.IH[OF d r']
    by (simp add: pairLoop_Cons_Some[OF Match.hyps] addPair_simps)
qed

lemma tripIds_distinct:
  "matchedTripSheetIds st = set (map tripSheetId (statePairs st)) \<Longrightarrow>
   distinct (map tripSheetId (statePairs st)) \<Longrightarrow>
   distinct (map tripSheetId (statePairs (pairLoop tz cy ts invs st)))"
proof (induction invs st rule: pairLoop_induct[where tz=tz and cy=cy and ts=ts])
  case (Nil st)
  then show ?case by simp
next
  case (NoMatch i rest st)
  then show ?case by (simp only: pairLoop_Cons_None)
next
  case (Match i rest st m)
  have new: "docId (fst m) \<notin> matchedTripSheetIds st"
    using scan_None[of tz cy i "matchedTripSheetIds st" ts "fst m" "fst (snd m)" "snd (snd m)"] Match.hyps
    by simp
  have a: "matchedTripSheetIds (addPair i m st) = set (map tripSheetId (statePairs (addPair i m st)))"
    using Match.prems by (simp add: addPair_simps)
  have b: "distinct (map tripSheetId (statePairs (addPair i m st)))"
    using Match.prems new by (simp add: addPair_simps)
  from Match.IH[OF a b] show ?case by (simp only: pairLoop_Cons_Some[OF Match.hyps])
qed

lemma tripIds_upper:
  "set (map tripSheetId (statePairs (pairLoop tz cy ts invs st))) \<subseteq>
     set (map tripSheetId (statePairs st)) \<union> docId ` set ts"
proof (induction invs st rule: pairLoop_induct[where tz=tz and cy=cy and ts=ts])
  case (Nil st)
  then show ?case by simp
next
  case (NoMatch i rest st)
  then show ?case by (simp only: pairLoop_Cons_None)
next
  case (Match i rest st m)
  have new: "fst m \<in> set ts"
    using scan_None[of tz cy i "matchedTripSheetIds st" ts "fst m" "fst (snd m)" "snd (snd m)"] Match.hyps
    by simp
  then show ?case using Match.IH by (auto simp: pairLoop_Cons_Some[OF Match.hyps] addPair_simps)
qed

lemma mset_distinct_subset:
  "distinct xs \<Longrightarrow> distinct ys \<Longrightarrow> set xs \<subseteq> set ys \<Longrightarrow>
     mset xs + mset (filter (\<lambda>y. y \<notin> set xs) ys) = mset ys"
proof -
  assume dx: "distinct xs" and dy: "distinct ys" and sub: "set xs \<subseteq> set ys"
  have s: "set xs = set (filter (\<lambda>y. y \<in> set xs) ys)" using sub by auto
  have d: "distinct (filter (\<lambda>y. y \<in> set xs) ys)" using dy by simp
  have "mset xs = mset (filter (\<lambda>y. y \<in> set xs) ys)"
    using set_eq_iff_mset_eq_distinct[OF dx d] s by blast
  then show ?thesis by simp
qed

text \<open>
  Claim C4. For documents with distinct ids, no id occurs twice among the invoice ids
  and trip-sheet ids of the pairs (so no document is in two pairs), and per kind the
  paired ids together with the unmatched ids are exactly the ids of the input
  documents of that kind (equal as multisets), the two parts being disjoint.
\<close>

theorem pairing_partition:
  fixes tz :: TimeZone and cy :: int and documents :: "DocumentData list"
  assumes dist: "distinct (map docId documents)"
  defines "r \<equiv> pairDocuments tz cy documents"
  defines "invoiceIds \<equiv> map docId (filter (\<lambda>doc. documentType doc = invoice) documents)"
  defines "tripSheetIds \<equiv> map docId (filter (\<lambda>doc. documentType doc = trip_sheet) documents)"
  shows "distinct (map invoiceId (pairs r) @ map tripSheetId (pairs r))
       \<and> mset (map invoiceId (pairs r)) + mset (unmatchedInvoices r) = mset invoiceIds
       \<and> set (map invoiceId (pairs r)) \<inter> set (unmatchedInvoices r) = {}
       \<and> mset (map tripSheetId (pairs r)) + mset (unmatchedTripSheets r) = mset tripSheetIds
       \<and> set (map tripSheetId (pairs r)) \<inter> set (unmatchedTripSheets r) = {}"
proof -
  define invoices where "invoices = filter (\<lambda>doc. documentType doc = invoice) documents"
  define tripSheets where "tripSheets = filter (\<lambda>doc. documentType doc = trip_sheet) documents"
  define st where "st = pairLoop tz cy tripSheets invoices initialPairingState"
  have r: "pairs r = statePairs st"
    "unmatchedInvoices r = map docId (filter (\<lambda>i. docId i \<notin> matchedInvoiceIds st) invoices)"
    "unmatchedTripSheets r = map docId (filter (\<lambda>t. docId t \<notin> matchedTripSheetIds st) tripSheets)"
    by (simp_all add: r_def pairDocuments_def Let_def invoices_def tripSheets_def st_def)
  have di: "distinct (map docId invoices)" and dt: "distinct (map docId tripSheets)"
    using dist by (simp_all add: invoices_def tripSheets_def distinct_map_filter)
  have disj: "docId ` set invoices \<inter> docId ` set tripSheets = {}"
  proof -
    { fix a b assume a: "a \<in> set invoices" and b: "b \<in> set tripSheets" and e: "docId a = docId b"
      have "a \<in> set documents" "b \<in> set documents" using a b by (auto simp: invoices_def tripSheets_def)
      then have "a = b" using dist e by (meson distinct_map inj_onD)
      then have False using a b by (auto simp: invoices_def tripSheets_def) }
    then show ?thesis by blast
  qed
  have init: "matchedInvoiceIds initialPairingState = set (map invoiceId (statePairs initialPairingState))"
    "matchedTripSheetIds initialPairingState = set (map tripSheetId (statePairs initialPairingState))"
    "distinct (map tripSheetId (statePairs initialPairingState))"
    "docId ` set invoices \<inter> matchedInvoiceIds initialPairingState = {}"
    by (simp_all add: initialPairingState_def)
  have mi: "matchedInvoiceIds st = set (map invoiceId (statePairs st))"
    unfolding st_def by (rule matchedInvoice_pairs[OF init(1)])
  have mt: "matchedTripSheetIds st = set (map tripSheetId (statePairs st))"
    unfolding st_def by (rule matchedTrip_pairs[OF init(2)])
  have ii: "map invoiceId (statePairs st) =
      map docId (filter (\<lambda>i. docId i \<in> matchedInvoiceIds st) invoices)"
    using invoiceIds_pairs[OF di init(4), of tz cy tripSheets]
    by (simp add: st_def initialPairingState_def)
  have td: "distinct (map tripSheetId (statePairs st))"
    unfolding st_def by (rule tripIds_distinct[OF init(2) init(3)])
  have tu: "set (map tripSheetId (statePairs st)) \<subseteq> set (map docId tripSheets)"
    using tripIds_upper[of tz cy tripSheets invoices initialPairingState]
    by (simp add: st_def initialPairingState_def)
  have iu: "set (map invoiceId (statePairs st)) \<subseteq> docId ` set invoices"
    unfolding ii by auto
  have idist: "distinct (map invoiceId (statePairs st))"
    unfolding ii using di by (simp add: distinct_map_filter)
  have c1: "distinct (map invoiceId (pairs r) @ map tripSheetId (pairs r))"
    unfolding r using idist td iu tu disj by auto
  have c2: "mset (map invoiceId (pairs r)) + mset (unmatchedInvoices r) = mset invoiceIds"
    unfolding r ii invoiceIds_def invoices_def[symmetric]
    by (simp add: mset_filter flip: image_mset_union)
  have c3: "set (map invoiceId (pairs r)) \<inter> set (unmatchedInvoices r) = {}"
    unfolding r(1,2) using mi by force
  have tf: "map docId (filter (\<lambda>t. docId t \<notin> matchedTripSheetIds st) tripSheets)
      = filter (\<lambda>y. y \<notin> set (map tripSheetId (statePairs st))) (map docId tripSheets)"
    by (simp add: mt filter_map o_def)
  have c4: "mset (map tripSheetId (pairs r)) + mset (unmatchedTripSheets r) = mset tripSheetIds"
    unfolding r tf tripSheetIds_def tripSheets_def[symmetric]
    by (rule mset_distinct_subset[OF td dt tu])
  have c5: "set (map tripSheetId (pairs r)) \<inter> set (unmatchedTripSheets r) = {}"
    unfolding r(1,3) using mt by force
  show ?thesis using c1 c2 c3 c4 c5 by blast
qed

lemma startsWith_append: "startsWith (a @ b) a"
  by (induction a) auto

lemma includesStr_Nil: "includesStr hay []"
  by (cases hay) simp_all

lemma includesStr_append: "includesStr (a @ b) a"
proof (cases a)
  case Nil
  then show ?thesis by (simp add: includesStr_Nil)
next
  case (Cons x xs)
  then show ?thesis using startsWith_append[of xs b] by simp
qed

lemma parse_1103: "parseDate tz cy ''11/03'' = Some (newDate tz cy 10 3)"
  by (simp add: parseDate_def isMonthDay_def digits_def isDigit_def Number_def digitVal_def)

text \<open>
  Claim C6 (scenario A). An invoice of 219.67 dated \<open>11/03\<close>, category taxi, with the
  vendor "Ruqi Chuxing" (written in Chinese in the source) and a trip sheet of 219.67
  dated \<open>11/03\<close> on the same platform: the amount check gives 50, the date check 30
  (same day), the platform check 20, and \<open>pairDocuments\<close> returns exactly one pair,
  joining the two, with confidence 100 and nothing unmatched. This holds in every
  year and whatever the other fields of the two documents are.
\<close>

theorem scenario_A:
  assumes i: "documentType i = invoice" "amount i = 21967 / 100" "date i = ''11/03''"
             "invoiceType i = Some taxi" "vendor i = Some ruqiChuxing"
      and t: "documentType t = trip_sheet" "amount t = 21967 / 100" "date t = ''11/03''"
             "tripDetails t = Some d" "platform d = ruqiChuxing"
  shows "checkAmountMatch (amount i) (amount t) = Some (AmountExact (21967 / 100))
       \<and> checkDateProximity tz cy (date i) (date t) = Some (30, DateSame (newDate tz cy 10 3))
       \<and> checkPlatformMatch i t = Some (PlatformMatched ruqiChuxing)
       \<and> calculateMatchScore tz cy i t =
           (50 + 30 + 20, [AmountExact (21967 / 100), DateSame (newDate tz cy 10 3), PlatformMatched ruqiChuxing])
       \<and> pairDocuments tz cy [i, t] =
           \<lparr>pairs = [\<lparr>invoiceId = docId i, tripSheetId = docId t, pairConfidence = 100,
                      matchReason = [AmountExact (21967 / 100), DateSame (newDate tz cy 10 3),
                                     PlatformMatched ruqiChuxing]\<rparr>],
            unmatchedInvoices = [], unmatchedTripSheets = []\<rparr>"
proof -
  have a: "checkAmountMatch (amount i) (amount t) = Some (AmountExact (21967 / 100))"
    by (simp add: checkAmountMatch_def i t)
  have b: "checkDateProximity tz cy (date i) (date t) = Some (30, DateSame (newDate tz cy 10 3))"
    by (simp add: checkDateProximity_def i t parse_1103)
  have ne: "ruqiChuxing \<noteq> []" by (simp add: ruqiChuxing_def)
  have low: "toLowerCase ruqiChuxing = ruqiChuxing"
    by (simp add: ruqiChuxing_def toLowerCase_def lowerChar_def)
  have inc: "includesStr (toLowerCase (orEmpty (vendor i) @ '' '' @ description i)) (toLowerCase ruqiChuxing)"
    using includesStr_append[of ruqiChuxing "toLowerCase ('' '' @ description i)"]
    by (simp add: i orEmpty_def toLowerCase_def low[unfolded toLowerCase_def])
  have c: "checkPlatformMatch i t = Some (PlatformMatched ruqiChuxing)"
    using inc ne by (simp add: checkPlatformMatch_def i t extractPlatformKeywords_def)
  have s: "calculateMatchScore tz cy i t =
           (100, [AmountExact (21967 / 100), DateSame (newDate tz cy 10 3), PlatformMatched ruqiChuxing])"
    by (simp add: calculateMatchScore_def a b c)
  have p: "pairDocuments tz cy [i, t] =
           \<lparr>pairs = [\<lparr>invoiceId = docId i, tripSheetId = docId t, pairConfidence = 100,
                      matchReason = [AmountExact (21967 / 100), DateSame (newDate tz cy 10 3),
                                     PlatformMatched ruqiChuxing]\<rparr>],
            unmatchedInvoices = [], unmatchedTripSheets = []\<rparr>"
    by (simp add: pairDocuments_def initialPairingState_def addPair_def i t s pairLoop.simps)
  show ?thesis using a b c s p by simp
qed

theorem scenario_A_witness:
  "pairDocuments utc 2025 [scenarioInvoice, scenarioTripSheet] =
     \<lparr>pairs = [\<lparr>invoiceId = ''inv1'', tripSheetId = ''trip1'', pairConfidence = 100,
                matchReason = [AmountExact (21967 / 100), DateSame 1762128000000,
                               PlatformMatched ruqiChuxing]\<rparr>],
      unmatchedInvoices = [], unmatchedTripSheets = []\<rparr>"
proof -
  define d where "d = \<lparr>platform = ruqiChuxing, departure = [], destination = [], time = [], distanceKm = 0\<rparr>"
  have i: "documentType scenarioInvoice = invoice" "amount scenarioInvoice = 21967 / 100"
    "date scenarioInvoice = ''11/03''" "invoiceType scenarioInvoice = Some taxi"
    "vendor scenarioInvoice = Some ruqiChuxing"
    by code_simp+
  have t: "documentType scenarioTripSheet = trip_sheet" "amount scenarioTripSheet = 21967 / 100"
    "date scenarioTripSheet = ''11/03''"
    by code_simp+
  have td: "tripDetails scenarioTripSheet = Some d" "platform d = ruqiChuxing"
    unfolding d_def by code_simp+
  have v: "docId scenarioInvoice = ''inv1''" "docId scenarioTripSheet = ''trip1''"
    "newDate utc 2025 10 3 = 1762128000000"
    by code_simp+
  show ?thesis
    using scenario_A[OF i t td, of utc 2025] by (simp only: v)
qed

theorem pairing_partition_witness:
  "distinct (map docId sampleDocuments)
   \<and> map invoiceId (pairs (pairDocuments utc 2024 sampleDocuments)) = [''inv1'']
   \<and> map tripSheetId (pairs (pairDocuments utc 2024 sampleDocuments)) = [''trip1'']
   \<and> mset (unmatchedInvoices (pairDocuments utc 2024 sampleDocuments)) = {#''inv2''#}
   \<and> mset (unmatchedTripSheets (pairDocuments utc 2024 sampleDocuments)) = {#''trip2''#}"
proof -
  have d: "distinct (map docId sampleDocuments)"
    by code_simp
  have p: "map invoiceId (pairs (pairDocuments utc 2024 sampleDocuments)) = [''inv1'']"
    "map tripSheetId (pairs (pairDocuments utc 2024 sampleDocuments)) = [''trip1'']"
    by code_simp+
  have i: "map docId (filter (\<lambda>doc. documentType doc = invoice) sampleDocuments) = [''inv2'', ''inv1'']"
    by code_simp
  have t: "map docId (filter (\<lambda>doc. documentType doc = trip_sheet) sampleDocuments) = [''trip1'', ''trip2'']"
    by code_simp
  show ?thesis
    using pairing_partition[OF d, of utc 2024] d by (simp add: p i t)
qed

subsection \<open>Sorting\<close>

lemma mset_insertBy: "mset (insertBy le x xs) = add_mset x (mset xs)"
  by (induction xs) auto

lemma mset_stableSort: "mset (stableSort le xs) = mset xs"
  by (induction xs) (auto simp: stableSort_def mset_insertBy)

lemma set_insertBy: "set (insertBy le x xs) = insert x (set xs)"
  by (induction xs) auto

lemma set_stableSort: "set (stableSort le xs) = set xs"
  by (induction xs) (auto simp: stableSort_def set_insertBy)

lemma sorted_insertBy:
  assumes total: "\<And>a b. le a b \<or> le b a" and trans: "\<And>a b c. le a b \<Longrightarrow> le b c \<Longrightarrow> le a c"
  shows "sorted_wrt le xs \<Longrightarrow> sorted_wrt le (insertBy le x xs)"
proof (induction xs)
  case Nil
  show ?case by simp
next
  case (Cons y ys)
  show ?case
  proof (cases "le x y")
    case True
    then have "\<forall>z\<in>set ys. le x z" using Cons.prems trans by auto
    then show ?thesis using True Cons.prems by simp
  next
    case False
    then have "le y x" using total by blast
    then show ?thesis using False Cons by (auto simp: set_insertBy)
  qed
qed

lemma sorted_stableSort:
  assumes total: "\<And>a b. le a b \<or> le b a" and trans: "\<And>a b c. le a b \<Longrightarrow> le b c \<Longrightarrow> le a c"
  shows "sorted_wrt le (stableSort le xs)"
proof (induction xs)
  case Nil
  show ?case by (simp add: stableSort_def)
next
  case (Cons x xs)
  have "stableSort le (x # xs) = insertBy le x (stableSort le xs)" by (simp add: stableSort_def)
  then show ?case using sorted_insertBy[of le, OF total trans Cons] by simp
qed

lemma filter_insertBy:
  "(\<And>y. y \<in> set xs \<Longrightarrow> P y \<Longrightarrow> P x \<Longrightarrow> le x y) \<Longrightarrow>
     filter P (insertBy le x xs) = (if P x then x # filter P xs else filter P xs)"
  by (induction xs) auto

lemma filter_stableSort:
  assumes "\<And>x y. P x \<Longrightarrow> P y \<Longrightarrow> le x y"
  shows "filter P (stableSort le xs) = filter P xs"
proof (induction xs)
  case Nil
  show ?case by (simp add: stableSort_def)
next
  case (Cons x xs)
  have "stableSort le (x # xs) = insertBy le x (stableSort le xs)" by (simp add: stableSort_def)
  then show ?case using filter_insertBy[of "stableSort le xs" P x le] assms Cons by simp
qed

text \<open>The keys of the groups.\<close>

lemma update_keys: "k \<in> fst ` set al \<Longrightarrow> map fst (AList.update k v al) = map fst al"
  by (induction al) auto

lemma typeKeys_all: "t \<in> set typeKeys"
  by (cases t) (simp_all add: typeKeys_def)

lemma groupInvoices_keys:
  "map fst (fst st) = typeKeys \<Longrightarrow> map fst (fst (groupInvoices documents pairMap ds st)) = typeKeys"
proof (induction documents pairMap ds st rule: groupInvoices.induct)
  case (1 documents pairMap st)
  then show ?case by simp
next
  case (2 documents pairMap doc rest groups processedIds)
  have k: "\<And>t v. map fst (AList.update t v groups) = typeKeys"
    using 2(5) typeKeys_all update_keys[of _ groups] by (metis fst_conv list.set_map)
  show ?case
  proof (cases "docId doc \<in> processedIds")
    case True
    then show ?thesis using 2 by simp
  next
    case False
    show ?thesis
    proof (cases "documentType doc = invoice")
      case inv: True
      show ?thesis
      proof (cases "findPairedTripSheet pairMap documents doc")
        case None
        then show ?thesis using 2(2)[OF False inv refl refl refl None] k False inv
          by (simp add: Let_def)
      next
        case (Some p)
        then show ?thesis using 2(3)[OF False inv refl refl refl Some] k False inv
          by (simp add: Let_def)
      qed
    next
      case ninv: False
      then show ?thesis using 2(4)[OF False ninv] 2(5) False by simp
    qed
  qed
qed

lemma groupTripSheets_keys:
  "map fst (fst st) = typeKeys \<Longrightarrow> map fst (fst (groupTripSheets ds st)) = typeKeys"
proof (induction ds st rule: groupTripSheets.induct)
  case (1 st)
  then show ?case by simp
next
  case (2 doc rest groups processedIds)
  have k: "\<And>t v. map fst (AList.update t v groups) = typeKeys"
    using 2(3) typeKeys_all update_keys[of _ groups] by (metis fst_conv list.set_map)
  show ?case
  proof (cases "documentType doc = trip_sheet \<and> docId doc \<notin> processedIds")
    case True
    then show ?thesis using 2(1)[OF True] k by simp
  next
    case False
    then show ?thesis using 2(2)[OF False] 2(3) by auto
  qed
qed

lemma groupByExpenseType_keys: "map fst (groupByExpenseType documents pairMap) = typeKeys"
  unfolding groupByExpenseType_def
  by (rule groupTripSheets_keys, rule groupInvoices_keys) (simp add: o_def)

lemma sortedTypes_typeKeys:
  "stableSort (\<lambda>a b. typePriority a - typePriority b \<le> 0) typeKeys = typeKeys"
  by (simp add: stableSort_def typeKeys_def typePriority_def)

lemma map_of_mapped:
  "map_of (map (\<lambda>(t, docs). (t, f docs)) groups) t = map_option f (map_of groups t)"
  by (induction groups) auto

lemma sortGroupsByDate_keys: "map fst (sortGroupsByDate tz cy groups pairMap) = map fst groups"
  by (induction groups) (auto simp: sortGroupsByDate_def)

lemma createDocumentUnits_Nil: "createDocumentUnits [] pairMap = []"
  by (simp add: createDocumentUnits_def)

lemma sortUnits_Nil: "sortUnits tz cy [] = []"
  by (simp add: sortUnits_def stableSort_def)

lemma flattenUnits_Nil: "flattenUnits [] = []"
  by (simp add: flattenUnits_def)

lemma sortGroupsByDate_get:
  "groupGet (sortGroupsByDate tz cy groups pairMap) t =
     flattenUnits (sortUnits tz cy (createDocumentUnits (groupGet groups t) pairMap))"
proof -
  let ?f = "\<lambda>docs. if docs = [] then [] else flattenUnits (sortUnits tz cy (createDocumentUnits docs pairMap))"
  have "sortGroupsByDate tz cy groups pairMap = map (\<lambda>(t, docs). (t, ?f docs)) groups"
    by (simp add: sortGroupsByDate_def split_def if_distrib cong: if_cong)
  then have "map_of (sortGroupsByDate tz cy groups pairMap) t = map_option ?f (map_of groups t)"
    by (simp only: map_of_mapped)
  then show ?thesis
    by (cases "map_of groups t")
       (simp_all add: groupGet_def createDocumentUnits_Nil sortUnits_Nil flattenUnits_Nil)
qed

lemma compareUnits_le: "(compareUnits tz cy a b \<le> 0) = unitLe tz cy a b"
  by (simp add: compareUnits_def unitLe_def split: option.splits)

lemma unitLe_total: "unitLe tz cy a b \<or> unitLe tz cy b a"
  by (auto simp: unitLe_def split: option.splits)

lemma unitLe_trans: "unitLe tz cy a b \<Longrightarrow> unitLe tz cy b c \<Longrightarrow> unitLe tz cy a c"
  by (auto simp: unitLe_def split: option.splits)

lemma sortUnits_sorted: "sorted_wrt (unitLe tz cy) (sortUnits tz cy units)"
  unfolding sortUnits_def compareUnits_le
  by (rule sorted_stableSort) (use unitLe_total unitLe_trans in blast)+

lemma sortUnits_stable:
  "filter (\<lambda>x. parseDate tz cy (date (primaryDoc x)) = k) (sortUnits tz cy units) =
   filter (\<lambda>x. parseDate tz cy (date (primaryDoc x)) = k) units"
  unfolding sortUnits_def compareUnits_le
  by (rule filter_stableSort) (auto simp: unitLe_def split: option.splits)

subsection \<open>Anomaly detection\<close>

declare gapLoop.simps [simp del]

lemma docsWithDates_sorted: "sorted_wrt dateLe (docsWithDates tz cy documents)"
proof -
  have e: "(\<lambda>a b. snd a - snd b \<le> (0::int)) = dateLe" by (auto simp: dateLe_def fun_eq_iff)
  show ?thesis unfolding docsWithDates_def e
    by (rule sorted_stableSort) (auto simp: dateLe_def)
qed

lemma gapLoop_gapWarnings:
  "sorted_wrt dateLe ds \<Longrightarrow> 1 \<le> i \<Longrightarrow> i \<le> length ds \<Longrightarrow>
     gapLoop ds i warnings = warnings @ gapWarnings (drop (i - 1) ds)"
proof (induction ds i warnings rule: gapLoop.induct)
  case (1 ds i warnings)
  show ?case
  proof (cases "i < length ds")
    case True
    define p where "p = ds ! (i - 1)"
    define c where "c = ds ! i"
    have d: "drop (i - 1) ds = p # c # drop (i + 1) ds"
      using True 1(3) by (metis Cons_nth_drop_Suc Suc_eq_plus1 Suc_pred' c_def less_imp_diff_less
          linorder_not_less not_one_le_zero p_def zero_less_iff_neq_zero)
    have d2: "drop i ds = c # drop (i + 1) ds"
      using True by (simp add: Cons_nth_drop_Suc c_def)
    have "dateLe p c" unfolding p_def c_def
      using sorted_wrt_nth_less[OF 1(2), of "i - 1" i] True 1(3) by simp
    then have g: "calculateDaysDiff (snd p) (snd c) = (snd c - snd p) div msPerDay"
      by (simp add: calculateDaysDiff_def dateLe_def)
    define w where "w = (if calculateDaysDiff (snd p) (snd c) > 7 then
                 warnings @ [\<lparr>wtype = date_gap,
                              message = GapMessage (snd p) (snd c) (calculateDaysDiff (snd p) (snd c)),
                              documentIds = [docId (fst p), docId (fst c)],
                              severity = gapSeverity (calculateDaysDiff (snd p) (snd c))\<rparr>]
               else warnings)"
    have step: "gapLoop ds i warnings = gapLoop ds (i + 1) w"
      by (subst gapLoop.simps) (simp add: True Let_def w_def p_def c_def)
    have b1: "1 \<le> i + 1" and b2: "i + 1 \<le> length ds" using True by simp_all
    have ih: "gapLoop ds (i + 1) w = w @ gapWarnings (drop i ds)"
      using 1(1)[OF True p_def c_def refl 1(2) b1 b2] unfolding w_def by (simp only: add_diff_cancel_right')
    show ?thesis
      unfolding step ih d d2 by (simp add: w_def g gapSeverity_def Let_def)
  next
    case False
    then have i: "i = length ds" using 1(4) by simp
    then have "drop (i - 1) ds = [last ds]" using 1(3)
      by (metis One_nat_def Suc_pred' append_butlast_last_id append_eq_conv_conj diff_is_0_eq
          drop_all length_butlast length_greater_0_conv less_one linorder_not_less list.size(3) nat_less_le not_less_eq)
    then show ?thesis using False by (subst gapLoop.simps) simp
  qed
qed

lemma detectDateGaps_spec: "detectDateGaps tz cy documents = gapWarnings (docsWithDates tz cy documents)"
proof (cases "length (docsWithDates tz cy documents) < 2")
  case True
  then have "gapWarnings (docsWithDates tz cy documents) = []"
    by (cases "docsWithDates tz cy documents" rule: gapWarnings.cases) auto
  then show ?thesis using True by (simp add: detectDateGaps_def)
next
  case False
  then show ?thesis
    using gapLoop_gapWarnings[OF docsWithDates_sorted, of 1 tz cy documents "[]"]
    by (simp add: detectDateGaps_def)
qed

lemma duplicates_type: "w \<in> set (detectDuplicates documents) \<Longrightarrow> wtype w = duplicate"
  by (auto simp: detectDuplicates_def Let_def split: if_splits)

lemma amounts_type: "w \<in> set (detectAmountAnomalies documents) \<Longrightarrow> wtype w = amount_anomaly"
  by (auto simp: detectAmountAnomalies_def Let_def split: if_splits option.splits)

lemma gapWarnings_type: "w \<in> set (gapWarnings ds) \<Longrightarrow> wtype w = date_gap"
  by (induction ds rule: gapWarnings.induct) (auto simp: Let_def split: if_splits)

lemma gaps_type: "w \<in> set (detectDateGaps tz cy documents) \<Longrightarrow> wtype w = date_gap"
  by (simp add: detectDateGaps_spec gapWarnings_type)

lemma missing_type: "w \<in> set (detectMissingPairs documents r) \<Longrightarrow> wtype w = missing_pair"
  by (auto simp: detectMissingPairs_def split: if_splits option.splits)

lemma filter_none: "(\<And>w. w \<in> set ws \<Longrightarrow> \<not> P w) \<Longrightarrow> filter P ws = []"
  by (induction ws) auto

lemma filter_all: "(\<And>w. w \<in> set ws \<Longrightarrow> P w) \<Longrightarrow> filter P ws = ws"
  by (induction ws) auto

lemma anomalies_amount:
  "filter (\<lambda>w. wtype w = amount_anomaly) (detectAnomalies tz cy documents pr) = detectAmountAnomalies documents"
proof -
  have a: "filter (\<lambda>w. wtype w = amount_anomaly) (detectDuplicates documents) = []"
    by (rule filter_none) (use duplicates_type in fastforce)
  have b: "filter (\<lambda>w. wtype w = amount_anomaly) (detectAmountAnomalies documents) = detectAmountAnomalies documents"
    by (rule filter_all) (use amounts_type in fastforce)
  have c: "filter (\<lambda>w. wtype w = amount_anomaly) (detectDateGaps tz cy documents) = []"
    by (rule filter_none) (use gaps_type in fastforce)
  have d: "\<And>r. filter (\<lambda>w. wtype w = amount_anomaly) (detectMissingPairs documents r) = []"
    by (rule filter_none) (use missing_type in fastforce)
  show ?thesis by (cases pr) (simp_all add: detectAnomalies_def a b c d)
qed

lemma anomalies_gap:
  "filter (\<lambda>w. wtype w = date_gap) (detectAnomalies tz cy documents pr) = detectDateGaps tz cy documents"
proof -
  have a: "filter (\<lambda>w. wtype w = date_gap) (detectDuplicates documents) = []"
    by (rule filter_none) (use duplicates_type in fastforce)
  have b: "filter (\<lambda>w. wtype w = date_gap) (detectAmountAnomalies documents) = []"
    by (rule filter_none) (use amounts_type in fastforce)
  have c: "filter (\<lambda>w. wtype w = date_gap) (detectDateGaps tz cy documents) = detectDateGaps tz cy documents"
    by (rule filter_all) (use gaps_type in fastforce)
  have d: "\<And>r. filter (\<lambda>w. wtype w = date_gap) (detectMissingPairs documents r) = []"
    by (rule filter_none) (use missing_type in fastforce)
  show ?thesis by (cases pr) (simp_all add: detectAnomalies_def a b c d)
qed

lemma newDate_utc: "newDate utc y m d div msPerDay = makeDay y m d"
  by (simp add: newDate_def utc_def msPerDay_def Let_def)

lemma newDate_day: "newDate tz y m d = makeDay y m d * msPerDay - tz (makeDay y m d)"
  by (simp add: newDate_def Let_def)

lemma parseDate_calendarDay:
  "parseDate tz cy s = map_option (\<lambda>n. n * msPerDay - tz n) (calendarDay cy s)"
proof -
  define h where "h = (\<lambda>t. (t div msPerDay) * msPerDay - tz (t div msPerDay))"
  have key: "\<And>y m d. newDate tz y m d = h (newDate utc y m d)"
    unfolding h_def newDate_utc by (rule newDate_day)
  have "parseDate tz cy s = map_option h (parseDate utc cy s)"
    unfolding parseDate_def[of tz] key
    by (simp add: parseDate_def split: list.splits)
  then show ?thesis
    by (simp add: calendarDay_def h_def option.map_comp comp_def)
qed

lemma insertBy_map:
  assumes "\<And>a b. le' (f a) (f b) = le a b"
  shows "insertBy le' (f x) (map f xs) = map f (insertBy le x xs)"
  by (induction xs) (simp_all add: assms)

lemma stableSort_map:
  assumes "\<And>a b. le' (f a) (f b) = le a b"
  shows "stableSort le' (map f xs) = map f (stableSort le xs)"
  unfolding stableSort_def
  by (induction xs) (simp_all add: insertBy_map[of le' f le, OF assms])

lemma dated_collect:
  assumes same: "\<forall>d \<in> set documents. \<forall>n. calendarDay cy (date d) = Some n \<longrightarrow> tz n = offset"
  shows "concat (map (\<lambda>doc. case parseDate tz cy (date doc) of Some d \<Rightarrow> [(doc, d)] | None \<Rightarrow> []) documents) =
         map (\<lambda>x. (fst x, snd x * msPerDay - offset))
           (concat (map (\<lambda>doc. case calendarDay cy (date doc) of Some n \<Rightarrow> [(doc, n)] | None \<Rightarrow> []) documents))"
  using same
proof (induction documents)
  case Nil
  show ?case by simp
next
  case (Cons doc rest)
  have ih: "concat (map (\<lambda>doc. case parseDate tz cy (date doc) of Some d \<Rightarrow> [(doc, d)] | None \<Rightarrow> []) rest) =
         map (\<lambda>x. (fst x, snd x * msPerDay - offset))
           (concat (map (\<lambda>doc. case calendarDay cy (date doc) of Some n \<Rightarrow> [(doc, n)] | None \<Rightarrow> []) rest))"
    using Cons by simp
  show ?case
  proof (cases "calendarDay cy (date doc)")
    case None
    then have "parseDate tz cy (date doc) = None" by (simp add: parseDate_calendarDay)
    then show ?thesis using None ih by simp
  next
    case (Some n)
    then have "tz n = offset" using Cons.prems by simp
    then have "parseDate tz cy (date doc) = Some (n * msPerDay - offset)"
      using Some by (simp add: parseDate_calendarDay)
    then show ?thesis using Some ih by simp
  qed
qed

lemma docsWithDates_dated:
  assumes same: "\<forall>d \<in> set documents. \<forall>n. calendarDay cy (date d) = Some n \<longrightarrow> tz n = offset"
  shows "docsWithDates tz cy documents =
           map (\<lambda>x. (fst x, snd x * msPerDay - offset)) (datedDocuments cy documents)"
proof -
  have le: "\<And>a b :: DocumentData \<times> int.
      (snd (fst a, snd a * msPerDay - offset) - snd (fst b, snd b * msPerDay - offset) \<le> 0) = (snd a \<le> snd b)"
    by (simp add: msPerDay_def)
  show ?thesis
    unfolding docsWithDates_def datedDocuments_def dated_collect[OF same]
    by (rule stableSort_map) (rule le)
qed

lemma gapWarnings_gapRule:
  "map (\<lambda>w. (documentIds w, severity w))
       (gapWarnings (map (\<lambda>x. (fst x, snd x * msPerDay - offset)) xs)) = gapRule xs"
proof (induction xs rule: gapRule.induct)
  case (1 p c rest)
  have g: "(snd c * msPerDay - offset - (snd p * msPerDay - offset)) div msPerDay = snd c - snd p"
  proof -
    have "snd c * msPerDay - offset - (snd p * msPerDay - offset) = (snd c - snd p) * msPerDay"
      by (simp add: algebra_simps)
    then show ?thesis by (simp add: msPerDay_def)
  qed
  have nz: "msPerDay \<noteq> 0" by (simp add: msPerDay_def)
  show ?case using 1 by (simp add: g nz Let_def)
qed simp_all

lemma datedDocuments_sorted: "sorted_wrt (\<lambda>a b. snd a \<le> snd b) (datedDocuments cy documents)"
  unfolding datedDocuments_def by (rule sorted_stableSort) auto

lemma datedDocuments_fst:
  "mset (map fst (datedDocuments cy documents)) =
     mset (filter (\<lambda>doc. parseDate tz cy (date doc) \<noteq> None) documents)"
proof -
  have "mset (map fst (concat (map (\<lambda>doc. case calendarDay cy (date doc) of Some n \<Rightarrow> [(doc, n)] | None \<Rightarrow> []) documents)))
      = mset (filter (\<lambda>doc. parseDate tz cy (date doc) \<noteq> None) documents)"
    by (induction documents) (auto simp: parseDate_calendarDay split: option.splits)
  then show ?thesis
    by (simp add: datedDocuments_def mset_stableSort)
qed

lemma datedDocuments_snd:
  "x \<in> set (datedDocuments cy documents) \<Longrightarrow> calendarDay cy (date (fst x)) = Some (snd x)"
  by (auto simp: datedDocuments_def set_stableSort split: option.splits)

lemma calendarDay_scenarioC:
  "calendarDay cy ''2024-01-01'' = Some 19723"
  "calendarDay cy ''2024-02-15'' = Some 19768"
  by code_simp+

text \<open>
  Claim C9. Where one and the same offset from UTC is in force on the days of all the
  dated documents, the date-gap warnings of \<open>detectAnomalies\<close> are, by their ids and
  severities, exactly those of the rule \<open>gapRule\<close> (one warning per consecutive pair
  more than 7 days apart, naming both ids; high above 30 days, medium above 14, low
  above 7; nothing up to 7) applied to \<open>datedDocuments\<close>: the documents of both kinds
  whose date parses, each with its calendar day, in ascending order. In particular
  two documents dated \<open>2024-01-01\<close> and \<open>2024-02-15\<close> give exactly one date-gap
  warning, of 45 days and high severity, naming both, in every zone with the same offset
  on these two days.
\<close>

theorem date_gaps:
  fixes tz :: TimeZone and cy :: int
  assumes same: "\<forall>d \<in> set documents. \<forall>n. calendarDay cy (date d) = Some n \<longrightarrow> tz n = offset"
  shows "map (\<lambda>w. (documentIds w, severity w))
           (filter (\<lambda>w. wtype w = date_gap) (detectAnomalies tz cy documents pr)) =
         gapRule (datedDocuments cy documents)
   \<and> sorted_wrt (\<lambda>a b. snd a \<le> snd b) (datedDocuments cy documents)
   \<and> mset (map fst (datedDocuments cy documents)) =
       mset (filter (\<lambda>doc. parseDate tz cy (date doc) \<noteq> None) documents)
   \<and> (\<forall>x \<in> set (datedDocuments cy documents). calendarDay cy (date (fst x)) = Some (snd x))
   \<and> (\<forall>d1 d2. date d1 = ''2024-01-01'' \<and> date d2 = ''2024-02-15'' \<and> tz 19723 = tz 19768 \<longrightarrow>
         filter (\<lambda>w. wtype w = date_gap) (detectAnomalies tz cy [d1, d2] pr) =
           [\<lparr>wtype = date_gap,
             message = GapMessage (1704067200000 - tz 19723) (1707955200000 - tz 19768) 45,
             documentIds = [docId d1, docId d2], severity = high\<rparr>])"
proof -
  have a: "map (\<lambda>w. (documentIds w, severity w))
           (filter (\<lambda>w. wtype w = date_gap) (detectAnomalies tz cy documents pr)) =
         gapRule (datedDocuments cy documents)"
    unfolding anomalies_gap detectDateGaps_spec docsWithDates_dated[OF same]
    by (rule gapWarnings_gapRule)
  have c: "\<forall>x \<in> set (datedDocuments cy documents). calendarDay cy (date (fst x)) = Some (snd x)"
    using datedDocuments_snd by blast
  have d: "\<forall>d1 d2. date d1 = ''2024-01-01'' \<and> date d2 = ''2024-02-15'' \<and> tz 19723 = tz 19768 \<longrightarrow>
         filter (\<lambda>w. wtype w = date_gap) (detectAnomalies tz cy [d1, d2] pr) =
           [\<lparr>wtype = date_gap,
             message = GapMessage (1704067200000 - tz 19723) (1707955200000 - tz 19768) 45,
             documentIds = [docId d1, docId d2], severity = high\<rparr>]"
  proof (intro allI impI)
    fix d1 d2 :: DocumentData
    assume h: "date d1 = ''2024-01-01'' \<and> date d2 = ''2024-02-15'' \<and> tz 19723 = tz 19768"
    have p: "parseDate tz cy ''2024-01-01'' = Some (1704067200000 - tz 19723)"
      "parseDate tz cy ''2024-02-15'' = Some (1707955200000 - tz 19768)"
      by (simp_all add: parseDate_calendarDay calendarDay_scenarioC msPerDay_def)
    have "docsWithDates tz cy [d1, d2] =
        [(d1, 1704067200000 - tz 19723), (d2, 1707955200000 - tz 19768)]"
      using h by (simp add: docsWithDates_def p stableSort_def)
    then show "filter (\<lambda>w. wtype w = date_gap) (detectAnomalies tz cy [d1, d2] pr) =
           [\<lparr>wtype = date_gap,
             message = GapMessage (1704067200000 - tz 19723) (1707955200000 - tz 19768) 45,
             documentIds = [docId d1, docId d2], severity = high\<rparr>]"
      using h by (simp add: anomalies_gap detectDateGaps_spec msPerDay_def)
  qed
  show ?thesis using a datedDocuments_sorted[of cy documents] c d datedDocuments_fst[of cy documents tz]
    by blast
qed

theorem date_gaps_witness:
  "map (\<lambda>w. (documentIds w, severity w))
     (filter (\<lambda>w. wtype w = date_gap)
        (detectAnomalies utc 2024 scenarioC (Some (pairDocuments utc 2024 scenarioC)))) =
     [([''c1'', ''c2''], high)]
   \<and> filter (\<lambda>w. wtype w = date_gap)
        (detectAnomalies utc 2024 scenarioC (Some (pairDocuments utc 2024 scenarioC))) =
     [\<lparr>wtype = date_gap, message = GapMessage 1704067200000 1707955200000 45,
       documentIds = [''c1'', ''c2''], severity = high\<rparr>]"
proof -
  have same: "\<forall>d \<in> set scenarioC. \<forall>n. calendarDay 2024 (date d) = Some n \<longrightarrow> utc n = 0"
    by (simp add: utc_def)
  have d: "date scenarioC1 = ''2024-01-01''" "date scenarioC2 = ''2024-02-15''"
    and i: "docId scenarioC1 = ''c1''" "docId scenarioC2 = ''c2''"
    by code_simp+
  have u: "utc 19723 = utc 19768" "utc 19723 = 0" "utc 19768 = 0" by (simp_all add: utc_def)
  note t = date_gaps[OF same, of "Some (pairDocuments utc 2024 scenarioC)"]
  have "filter (\<lambda>w. wtype w = date_gap)
          (detectAnomalies utc 2024 [scenarioC1, scenarioC2] (Some (pairDocuments utc 2024 scenarioC))) =
           [\<lparr>wtype = date_gap,
             message = GapMessage (1704067200000 - utc 19723) (1707955200000 - utc 19768) 45,
             documentIds = [docId scenarioC1, docId scenarioC2], severity = high\<rparr>]"
    using t d u(1) by blast
  then have b: "filter (\<lambda>w. wtype w = date_gap)
        (detectAnomalies utc 2024 scenarioC (Some (pairDocuments utc 2024 scenarioC))) =
     [\<lparr>wtype = date_gap, message = GapMessage 1704067200000 1707955200000 45,
       documentIds = [''c1'', ''c2''], severity = high\<rparr>]"
    by (simp only: i scenarioC_def u diff_zero)
  show ?thesis unfolding b by simp
qed

text \<open>
  Claim C9 fails where the offset changes between two dates. \<open>calculateDaysDiff\<close>
  divides the difference of two local midnights by 86400000 ms and rounds down; in
  New York the midnights of 2024-03-08 and 2024-03-16 are 191 hours apart, which
  counts as 7 days, so no warning is emitted for a gap of 8 days, where the rule gives
  a low one.
\<close>

theorem date_gap_daylight_saving_counterexample:
  "datedDocuments 2024 dstDocuments =
     [(dstDocuments ! 0, 19790), (dstDocuments ! 1, 19798)]
   \<and> gapRule (datedDocuments 2024 dstDocuments) = [([''m1'', ''m2''], low)]
   \<and> parseDate newYork 2024 ''2024-03-08'' = Some 1709874000000
   \<and> parseDate newYork 2024 ''2024-03-16'' = Some 1710561600000
   \<and> calculateDaysDiff 1709874000000 1710561600000 = 7
   \<and> filter (\<lambda>w. wtype w = date_gap) (detectAnomalies newYork 2024 dstDocuments None) = []"
proof -
  have a: "datedDocuments 2024 dstDocuments = [(dstDocuments ! 0, 19790), (dstDocuments ! 1, 19798)]"
    by code_simp
  have b: "gapRule (datedDocuments 2024 dstDocuments) = [([''m1'', ''m2''], low)]"
    by code_simp
  have c: "parseDate newYork 2024 ''2024-03-08'' = Some 1709874000000"
    "parseDate newYork 2024 ''2024-03-16'' = Some 1710561600000"
    "calculateDaysDiff 1709874000000 1710561600000 = 7"
    by code_simp+
  have d: "detectDateGaps newYork 2024 dstDocuments = []"
    by code_simp
  show ?thesis unfolding anomalies_gap using a b c d by simp
qed

text \<open>
  The third quartile is read at the index \<open>3 * n div 4\<close>: for two to four sorted
  amounts this is the largest amount itself, so no amount of such a group lies above
  the upper fences.
\<close>

lemma largest_never_flagged:
  assumes s: "sorted amounts" and n: "2 \<le> length amounts" "length amounts \<le> 4"
    and a: "a \<in> set amounts"
  defines "stats \<equiv> calculateAmountStats amounts"
  shows "q3 stats = last amounts \<and> a \<le> q3 stats + (3 / 2) * iqr stats
       \<and> a \<le> q3 stats + 3 * iqr stats"
proof -
  have len: "length amounts = 2 \<or> length amounts = 3 \<or> length amounts = 4" using n by arith
  then have i: "3 * length amounts div 4 = length amounts - 1" by auto
  have ne: "amounts \<noteq> []" using n by auto
  have q: "q3 stats = last amounts"
    by (simp add: stats_def calculateAmountStats_def Let_def i last_conv_nth[OF ne])
  have "length amounts div 4 \<le> 3 * length amounts div 4" by simp
  moreover have "3 * length amounts div 4 < length amounts" using n by (simp add: i)
  ultimately have "amounts ! (length amounts div 4) \<le> amounts ! (3 * length amounts div 4)"
    using s by (simp add: sorted_nth_mono)
  then have iq: "0 \<le> iqr stats"
    by (simp add: stats_def calculateAmountStats_def Let_def)
  obtain j where j: "j < length amounts" "a = amounts ! j" using a by (auto simp: in_set_conv_nth)
  then have "a \<le> amounts ! (length amounts - 1)"
    using s n by (simp add: sorted_nth_mono)
  then have le: "a \<le> q3 stats" unfolding q by (simp add: last_conv_nth[OF ne])
  have "a \<le> q3 stats + (3 / 2) * iqr stats" using le iq by (simp add: add_increasing2)
  moreover have "a \<le> q3 stats + 3 * iqr stats" using le iq by (simp add: add_increasing2)
  ultimately show ?thesis using q by simp
qed

text \<open>
  Claim C2 (scenario D), as the code has it. For four hotel invoices of 100, 102, 105
  and 5000, \<open>detectAnomalies\<close> emits no amount-anomaly warning at all: the quartiles
  are read at the indices \<open>n div 4\<close> and \<open>3 * n div 4\<close> of the sorted amounts, so
  Q1 = 102, Q3 = 5000 (the largest amount itself) and IQR = 4898, and 5000 is below
  the fence Q3 + 1.5 IQR = 12347.
\<close>

theorem scenario_D:
  assumes k: "documentType d1 = invoice" "documentType d2 = invoice"
             "documentType d3 = invoice" "documentType d4 = invoice"
      and h: "invoiceType d1 = Some hotel" "invoiceType d2 = Some hotel"
             "invoiceType d3 = Some hotel" "invoiceType d4 = Some hotel"
      and a: "amount d1 = 100" "amount d2 = 102" "amount d3 = 105" "amount d4 = 5000"
  defines "stats \<equiv> calculateAmountStats (stableSort (\<lambda>a b. a - b \<le> 0) (map amount [d1, d2, d3, d4]))"
  shows "filter (\<lambda>w. wtype w = amount_anomaly) (detectAnomalies tz cy [d1, d2, d3, d4] pr) = []
       \<and> q1 stats = 102 \<and> q3 stats = 5000 \<and> iqr stats = 4898
       \<and> q3 stats + (3 / 2) * iqr stats = 12347
       \<and> isAmountAnomaly 5000 stats hotel = None"
proof -
  have s: "stableSort (\<lambda>a b. a - b \<le> 0) (map amount [d1, d2, d3, d4]) = [100, 102, 105, 5000]"
    by (simp add: a stableSort_def)
  have st: "stats = \<lparr>mean = 5307 / 4, median = 207 / 2, q1 = 102, q3 = 5000, iqr = 4898,
                      minAmount = 100, maxAmount = 5000\<rparr>"
    unfolding stats_def s by (simp add: calculateAmountStats_def)
  have t: "invoicesByType [d1, d2, d3, d4] = [(hotel, [d1, d2, d3, d4])]"
    by (simp add: invoicesByType_def pushTo_def typeOrOther_def h)
  have n: "isAmountAnomaly 100 stats hotel = None" "isAmountAnomaly 102 stats hotel = None"
    "isAmountAnomaly 105 stats hotel = None" "isAmountAnomaly 5000 stats hotel = None"
    by (simp_all add: st isAmountAnomaly_def)
  have "detectAmountAnomalies [d1, d2, d3, d4] = []"
    using n by (simp add: detectAmountAnomalies_def k t a stats_def Let_def)
  then show ?thesis using n by (simp add: anomalies_amount st)
qed

theorem scenario_D_witness:
  "detectAmountAnomalies scenarioD = []
   \<and> q3 (calculateAmountStats (stableSort (\<lambda>a b. a - b \<le> 0) (map amount scenarioD))) = 5000"
proof -
  define d1 where "d1 = hotelInvoice ''h1'' 100 ''2024-03-01''"
  define d2 where "d2 = hotelInvoice ''h2'' 102 ''2024-03-02''"
  define d3 where "d3 = hotelInvoice ''h3'' 105 ''2024-03-03''"
  define d4 where "d4 = hotelInvoice ''h4'' 5000 ''2024-03-04''"
  have k: "documentType d1 = invoice" "documentType d2 = invoice"
          "documentType d3 = invoice" "documentType d4 = invoice"
    unfolding d1_def d2_def d3_def d4_def by code_simp+
  have h: "invoiceType d1 = Some hotel" "invoiceType d2 = Some hotel"
          "invoiceType d3 = Some hotel" "invoiceType d4 = Some hotel"
    unfolding d1_def d2_def d3_def d4_def by code_simp+
  have a: "amount d1 = 100" "amount d2 = 102" "amount d3 = 105" "amount d4 = 5000"
    unfolding d1_def d2_def d3_def d4_def by code_simp+
  have s: "scenarioD = [d1, d2, d3, d4]"
    by (simp only: scenarioD_def d1_def d2_def d3_def d4_def)
  show ?thesis
    using scenario_D[OF k h a, of utc 2024 None] unfolding s
    by (simp only: anomalies_amount simp_thms)
qed

text \<open>
  On the four invoices of scenario D the code emits no amount-anomaly warning, where
  Claim C2 has exactly one, for the invoice of 5000, and where \<open>detectAmountAnomalies\<close>
  is documented to mark the amounts that are clearly too high.
\<close>

theorem scenario_D_counterexample:
  "filter (\<lambda>w. wtype w = amount_anomaly) (detectAnomalies utc 2024 scenarioD None) = []"
  unfolding anomalies_amount by code_simp

subsection \<open>Batch processing\<close>

lemma recognizeFiles_length:
  "(\<And>k. k < length files \<Longrightarrow> \<exists>e. processFile env (i + k) = Inl e) \<Longrightarrow>
     length (fst (recognizeFiles env i files (docs, errs, events))) = length docs + length files"
proof (induction files arbitrary: i docs errs events)
  case Nil
  show ?case by simp
next
  case (Cons f files)
  obtain e where e: "processFile env i = Inl e" using Cons.prems[of 0] by auto
  have "\<And>k. k < length files \<Longrightarrow> \<exists>e. processFile env (Suc i + k) = Inl e"
    using Cons.prems[of "Suc k" for k] by auto
  from Cons.IH[OF this] show ?case using e by (simp add: Let_def)
qed

lemma recognizeFiles_status:
  "(\<And>k. k < length files \<Longrightarrow> \<exists>e. processFile env (i + k) = Inl e) \<Longrightarrow>
     \<forall>d \<in> set docs. status d = error \<Longrightarrow>
     \<forall>d \<in> set (fst (recognizeFiles env i files (docs, errs, events))). status d = error"
proof (induction files arbitrary: i docs errs events)
  case Nil
  then show ?case by simp
next
  case (Cons f files)
  obtain e where e: "processFile env i = Inl e" using Cons.prems(1)[of 0] by auto
  have a: "\<And>k. k < length files \<Longrightarrow> \<exists>e. processFile env (Suc i + k) = Inl e"
    using Cons.prems(1)[of "Suc k" for k] by auto
  have b: "\<forall>d \<in> set (docs @ [createErrorDocument (errorDocId env i) f (getErrorMessage e)]).
      status d = error"
    using Cons.prems(2) by (auto simp: createErrorDocument_def)
  show ?case using Cons.IH[OF a b] e by (simp add: Let_def)
qed

text \<open>
  Claim C1, first part, fails on the code: when the file list is not empty and
  every file fails, each failure has pushed an error document, so \<open>documents\<close> is
  not empty, the test \<open>documents.length === 0\<close> is false, and the batch does not
  abort: it returns a result with one error document per file.
\<close>

theorem all_files_fail_no_abort:
  assumes "files \<noteq> []" and "\<And>k. k < length files \<Longrightarrow> \<exists>e. processFile env k = Inl e"
  shows "\<exists>r. snd (processBatch env tz cy files) = Inr r
             \<and> length (resultDocuments r) = length files
             \<and> (\<forall>d \<in> set (resultDocuments r). status d = error)
             \<and> resultPairs r = pairDocuments tz cy (resultDocuments r)
             \<and> resultSorting r = sortDocuments tz cy (resultDocuments r) (resultPairs r)
             \<and> resultWarnings r = detectAnomalies tz cy (resultDocuments r) (Some (resultPairs r))"
proof -
  obtain docs errs events where r: "recognizeFiles env 0 files ([], [], [Progress recognizing 0]) = (docs, errs, events)"
    by (metis prod_cases3)
  have l: "length docs = length files"
    using recognizeFiles_length[of files env 0 "[]" "[]" "[Progress recognizing 0]"] assms(2) r by simp
  then have ne: "docs \<noteq> []" using assms(1) by (cases docs) auto
  have s: "\<forall>d \<in> set docs. status d = error"
    using recognizeFiles_status[of files env 0 "[]" "[]" "[Progress recognizing 0]"] assms(2) r by auto
  show ?thesis using l s ne by (simp add: processBatch_def r Let_def)
qed

theorem all_files_fail_no_abort_witness:
  "snd (processBatch failingEnv utc 2024 twoFiles) \<noteq> Inl AllFilesFailed"
proof -
  have a: "twoFiles \<noteq> []" by (simp add: twoFiles_def)
  have b: "\<And>k. k < length twoFiles \<Longrightarrow> \<exists>e. processFile failingEnv k = Inl e"
    by (simp add: failingEnv_def)
  show ?thesis using all_files_fail_no_abort[OF a b, of utc 2024] by auto
qed

lemma inFlight_append: "inFlight (a @ b) = inFlight a + inFlight b"
  by (induction a rule: inFlight.induct) auto

lemma sequential_call:
  assumes "sequential es"
  shows "sequential (es @ [Progress s k, RecognizeStart i, RecognizeEnd i])"
proof -
  have z: "inFlight es = 0" and p: "\<And>n. 0 \<le> inFlight (take n es) \<and> inFlight (take n es) \<le> 1"
    using assms by (auto simp: sequential_def)
  { fix n
    have "0 \<le> inFlight (take n (es @ [Progress s k, RecognizeStart i, RecognizeEnd i]))
        \<and> inFlight (take n (es @ [Progress s k, RecognizeStart i, RecognizeEnd i])) \<le> 1"
    proof (cases "n \<le> length es")
      case True
      then show ?thesis using p[of n] by simp
    next
      case False
      then obtain m where m: "n = length es + Suc m" by (metis add_Suc_right less_imp_Suc_add not_le)
      show ?thesis using z
        by (cases m rule: nat.exhaust[case_names 0 Suc])
           (auto simp: m inFlight_append take_Cons' )
    qed }
  then show ?thesis using z by (simp add: sequential_def inFlight_append)
qed

lemma sequential_progress:
  assumes "sequential es"
  shows "sequential (es @ [Progress s k])"
proof -
  have z: "inFlight es = 0" and p: "\<And>n. 0 \<le> inFlight (take n es) \<and> inFlight (take n es) \<le> 1"
    using assms by (auto simp: sequential_def)
  { fix n
    have "0 \<le> inFlight (take n (es @ [Progress s k])) \<and> inFlight (take n (es @ [Progress s k])) \<le> 1"
      using p[of n] z by (cases "n \<le> length es") (auto simp: inFlight_append) }
  then show ?thesis using z by (simp add: sequential_def inFlight_append)
qed

lemma recognizeFiles_sequential:
  "sequential events \<Longrightarrow> sequential (snd (snd (recognizeFiles env i files (docs, errs, events))))"
proof (induction files arbitrary: i docs errs events)
  case Nil
  then show ?case by simp
next
  case (Cons f files)
  have s: "sequential ((events @ [Progress recognizing (i + 1), RecognizeStart i]) @ [RecognizeEnd i])"
    using sequential_call[OF Cons.prems, of recognizing "i + 1" i] by simp
  show ?case using Cons.IH[OF s] by (cases "processFile env i") (simp_all add: Let_def)
qed

lemma processBatch_sequential: "sequential (fst (processBatch env tz cy files))"
proof -
  obtain docs errs events where r: "recognizeFiles env 0 files ([], [], [Progress recognizing 0]) = (docs, errs, events)"
    by (metis prod_cases3)
  have "sequential [Progress recognizing 0]"
    using sequential_progress[of "[]" recognizing 0] by (simp add: sequential_def)
  then have e: "sequential events"
    using recognizeFiles_sequential[of "[Progress recognizing 0]" env 0 files "[]" "[]"] r by simp
  show ?thesis
  proof (cases "length docs = 0")
    case True
    then show ?thesis using sequential_progress[OF e, of failed 0] by (simp add: processBatch_def r)
  next
    case False
    have "sequential ((((events @ [Progress pairing (length files)]) @ [Progress sorting (length files)])
        @ [Progress detecting (length files)]) @ [Progress finished (length files)])"
      by (intro sequential_progress e)
    then show ?thesis using False by (simp add: processBatch_def r Let_def)
  qed
qed

lemma maxInFlight_sequential: "sequential es \<Longrightarrow> maxInFlight es \<le> 1"
  unfolding maxInFlight_def by (subst Max_le_iff) (auto simp: sequential_def)

text \<open>
  Claim C3, as the code has it. Whatever configuration is supplied (endpoint,
  credential, model), the timeout of a recognition request is the constant 30000 ms
  and a recognition call is retried at most the constant 3 times; and during
  \<open>processBatch\<close> the files are recognized strictly one after another, each call
  awaited before the next starts, so at most one call is in flight and there is no
  concurrency bound to configure.
\<close>

theorem fixed_configuration:
  "timeout (buildRequest apiConfig imageBase64) = 30000
   \<and> length (fst (recognizeDocument post parseAIResponse imageBase64 apiConfig name)) \<le> 3
   \<and> maxInFlight (fst (processBatch env tz cy files)) \<le> 1"
  using retry_len[of 0] processBatch_sequential[of env tz cy files]
  by (simp add: buildRequest_def TIMEOUT_MS_def recognizeDocument_def MAX_RETRIES_def
      maxInFlight_sequential)

theorem fixed_configuration_witness:
  "timeout (buildRequest configA ''img'') = 30000
   \<and> maxInFlight (fst (processBatch failingEnv utc 2024 twoFiles)) \<le> 1"
  using fixed_configuration[of configA "''img''" alwaysUnavailable "\<lambda>c n. None" "''f''" failingEnv utc 2024 twoFiles]
  by simp

text \<open>
  Claim C3 as stated fails: two configurations that differ in every field get the
  same timeout and the same three retries with the same delays, and a batch of two
  files is recognized one file after the other.
\<close>

theorem fixed_configuration_counterexample:
  "endpoint configA \<noteq> endpoint configB \<and> apiKey configA \<noteq> apiKey configB \<and> model configA \<noteq> model configB
   \<and> timeout (buildRequest configA ''img'') = 30000
   \<and> timeout (buildRequest configB ''img'') = 30000
   \<and> fst (recognizeDocument alwaysUnavailable (\<lambda>c n. None) ''img'' configA ''f'') = [1000, 2000, 4000]
   \<and> fst (recognizeDocument alwaysUnavailable (\<lambda>c n. None) ''img'' configB ''f'') = [1000, 2000, 4000]
   \<and> fst (processBatch failingEnv utc 2024 twoFiles) =
       [Progress recognizing 0,
        Progress recognizing 1, RecognizeStart 0, RecognizeEnd 0,
        Progress recognizing 2, RecognizeStart 1, RecognizeEnd 1,
        Progress pairing 2, Progress sorting 2, Progress detecting 2, Progress finished 2]"
proof -
  have a: "endpoint configA \<noteq> endpoint configB" "apiKey configA \<noteq> apiKey configB" "model configA \<noteq> model configB"
    by (simp_all add: configA_def configB_def)
  have b: "timeout (buildRequest configA ''img'') = 30000" "timeout (buildRequest configB ''img'') = 30000"
    by (simp_all add: buildRequest_def TIMEOUT_MS_def)
  have c: "fst (recognizeDocument alwaysUnavailable (\<lambda>c n. None) ''img'' configA ''f'') = [1000, 2000, 4000]"
    "fst (recognizeDocument alwaysUnavailable (\<lambda>c n. None) ''img'' configB ''f'') = [1000, 2000, 4000]"
    by (simp_all add: recognizeDocument_def alwaysUnavailable_def retryWithBackoff.simps
        MAX_RETRIES_def INITIAL_RETRY_DELAY_def)
  have d: "recognizeFiles failingEnv 0 twoFiles ([], [], [Progress recognizing 0]) =
     ([createErrorDocument ''error_0'' (twoFiles ! 0) (getErrorMessage (AIErrorThrown ''401'')),
       createErrorDocument ''error_1'' (twoFiles ! 1) (getErrorMessage (AIErrorThrown ''401''))],
      [(''a.jpg'', getErrorMessage (AIErrorThrown ''401'')), (''b.pdf'', getErrorMessage (AIErrorThrown ''401''))],
      [Progress recognizing 0,
        Progress recognizing 1, RecognizeStart 0, RecognizeEnd 0,
        Progress recognizing 2, RecognizeStart 1, RecognizeEnd 1])"
    by (simp add: failingEnv_def twoFiles_def Let_def)
  have e: "fst (processBatch failingEnv utc 2024 twoFiles) =
       [Progress recognizing 0,
        Progress recognizing 1, RecognizeStart 0, RecognizeEnd 0,
        Progress recognizing 2, RecognizeStart 1, RecognizeEnd 1,
        Progress pairing 2, Progress sorting 2, Progress detecting 2, Progress finished 2]"
    unfolding processBatch_def d by (simp add: Let_def twoFiles_def)
  show ?thesis using a b c e by simp
qed

subsection \<open>The suggested order as a permutation\<close>

lemma pairDocuments_good:
  assumes "distinct (map docId ds)"
  shows "goodPairs ds (pairs (pairDocuments tz cy ds))"
proof -
  define invoices where "invoices = filter (\<lambda>doc. documentType doc = invoice) ds"
  define tripSheets where "tripSheets = filter (\<lambda>doc. documentType doc = trip_sheet) ds"
  define st where "st = pairLoop tz cy tripSheets invoices initialPairingState"
  have p: "pairs (pairDocuments tz cy ds) = statePairs st"
    by (simp add: pairDocuments_def Let_def invoices_def tripSheets_def st_def)
  have di: "distinct (map docId invoices)"
    using assms by (simp add: invoices_def distinct_map_filter)
  have init: "docId ` set invoices \<inter> matchedInvoiceIds initialPairingState = {}"
    by (simp add: initialPairingState_def)
  have ii: "map invoiceId (statePairs st) =
      map docId (filter (\<lambda>i. docId i \<in> matchedInvoiceIds st) invoices)"
    using invoiceIds_pairs[OF di init, of tz cy tripSheets]
    by (simp add: st_def initialPairingState_def)
  have tu: "set (map tripSheetId (statePairs st)) \<subseteq> docId ` set tripSheets"
    using tripIds_upper[of tz cy tripSheets invoices initialPairingState]
    by (simp add: st_def initialPairingState_def)
  have iu: "set (map invoiceId (statePairs st)) \<subseteq> docId ` set invoices"
    unfolding ii by auto
  have td: "distinct (map tripSheetId (statePairs st))"
    unfolding st_def by (rule tripIds_distinct) (simp_all add: initialPairingState_def)
  have idist: "distinct (map invoiceId (statePairs st))"
    unfolding ii using di by (simp add: distinct_map_filter)
  have disj: "docId ` set invoices \<inter> docId ` set tripSheets = {}"
  proof -
    { fix a b assume a: "a \<in> set invoices" and b: "b \<in> set tripSheets" and e: "docId a = docId b"
      have "a \<in> set ds" "b \<in> set ds" using a b by (auto simp: invoices_def tripSheets_def)
      then have "a = b" using assms e by (meson distinct_map inj_onD)
      then have False using a b by (auto simp: invoices_def tripSheets_def) }
    then show ?thesis by blast
  qed
  have "distinct (map invoiceId (statePairs st) @ map tripSheetId (statePairs st))"
    using idist td iu tu disj by auto
  then show ?thesis
    using iu tu unfolding goodPairs_def p by (simp add: invoices_def tripSheets_def)
qed

lemma pairMap_char:
  assumes "distinct (map invoiceId ps @ map tripSheetId ps)"
  shows "(foldl (\<lambda>pairMap pair. (pairMap(invoiceId pair \<mapsto> tripSheetId pair))(tripSheetId pair \<mapsto> invoiceId pair))
            Map.empty ps k = Some v)
       = (\<exists>p \<in> set ps. (invoiceId p = k \<and> tripSheetId p = v) \<or> (tripSheetId p = k \<and> invoiceId p = v))"
  using assms
proof (induction ps arbitrary: k v rule: rev_induct)
  case Nil
  show ?case by simp
next
  case (snoc p qs)
  have d: "distinct (map invoiceId qs @ map tripSheetId qs)" using snoc.prems by auto
  have n: "invoiceId p \<notin> invoiceId ` set qs" "invoiceId p \<notin> tripSheetId ` set qs"
          "tripSheetId p \<notin> invoiceId ` set qs" "tripSheetId p \<notin> tripSheetId ` set qs"
          "invoiceId p \<noteq> tripSheetId p"
    using snoc.prems by auto
  show ?case
    using snoc.IH[OF d] n by (auto simp: image_iff)
qed

lemma createPairMap_char:
  assumes "distinct (map invoiceId (pairs r) @ map tripSheetId (pairs r))"
  shows "(createPairMap r k = Some v)
       = (\<exists>p \<in> set (pairs r). (invoiceId p = k \<and> tripSheetId p = v) \<or> (tripSheetId p = k \<and> invoiceId p = v))"
  unfolding createPairMap_def by (rule pairMap_char[OF assms])

lemma find_id_Some:
  "find (\<lambda>d. docId d = i) ds = Some x \<Longrightarrow> x \<in> set ds \<and> docId x = i"
  by (induction ds) (auto split: if_splits)

lemma find_id_None:
  "(find (\<lambda>d. docId d = i) ds = None) = (i \<notin> docId ` set ds)"
  by (induction ds) auto

lemma find_id_distinct:
  "distinct (map docId ds) \<Longrightarrow> x \<in> set ds \<Longrightarrow> find (\<lambda>d. docId d = docId x) ds = Some x"
  by (induction ds) (auto simp: image_iff)

lemma same_id:
  "distinct (map docId ds) \<Longrightarrow> x \<in> set ds \<Longrightarrow> y \<in> set ds \<Longrightarrow> docId x = docId y \<Longrightarrow> x = y"
  by (meson distinct_map inj_onD)

text \<open>The partner of an invoice.\<close>

lemma partner_Some:
  assumes dist: "distinct (map docId ds)" and good: "goodPairs ds (pairs r)"
    and d: "d \<in> set ds" "documentType d = invoice"
    and f: "findPairedTripSheet (createPairMap r) ds d = Some ts"
  shows "ts \<in> set ds \<and> documentType ts = trip_sheet \<and> docId ts \<noteq> []
       \<and> (\<exists>p \<in> set (pairs r). invoiceId p = docId d \<and> tripSheetId p = docId ts)"
proof -
  have dd: "distinct (map invoiceId (pairs r) @ map tripSheetId (pairs r))"
    using good by (simp add: goodPairs_def)
  obtain tid where m: "createPairMap r (docId d) = Some tid" and ne: "tid \<noteq> []"
    and fd: "find (\<lambda>x. docId x = tid) ds = Some ts"
    using f by (auto simp: findPairedTripSheet_def split: option.splits if_splits)
  have ts: "ts \<in> set ds" "docId ts = tid" using find_id_Some[OF fd] by auto
  obtain p where p: "p \<in> set (pairs r)"
    and c: "(invoiceId p = docId d \<and> tripSheetId p = tid) \<or> (tripSheetId p = docId d \<and> invoiceId p = tid)"
    using m createPairMap_char[OF dd, of "docId d" tid] by auto
  have notTrip: "tripSheetId p \<noteq> docId d"
  proof
    assume e: "tripSheetId p = docId d"
    then obtain x where x: "x \<in> set ds" "documentType x = trip_sheet" "docId x = docId d"
      using good p by (auto simp: goodPairs_def)
    then have "x = d" using same_id[OF dist x(1) d(1)] by simp
    then show False using x d by simp
  qed
  then have c': "invoiceId p = docId d" "tripSheetId p = tid" using c by auto
  obtain x where x: "x \<in> set ds" "documentType x = trip_sheet" "docId x = tid"
    using good p c' by (auto simp: goodPairs_def)
  have "x = ts" using same_id[OF dist x(1) ts(1)] x ts by simp
  then show ?thesis using ts x ne p c' by auto
qed

lemma partner_inj:
  assumes dist: "distinct (map docId ds)" and good: "goodPairs ds (pairs r)"
    and d1: "d1 \<in> set ds" "documentType d1 = invoice"
    and d2: "d2 \<in> set ds" "documentType d2 = invoice"
    and f1: "findPairedTripSheet (createPairMap r) ds d1 = Some ts"
    and f2: "findPairedTripSheet (createPairMap r) ds d2 = Some ts"
  shows "d1 = d2"
proof -
  have dd: "distinct (map invoiceId (pairs r) @ map tripSheetId (pairs r))"
    using good by (simp add: goodPairs_def)
  obtain p1 where p1: "p1 \<in> set (pairs r)" "invoiceId p1 = docId d1" "tripSheetId p1 = docId ts"
    using partner_Some[OF dist good d1 f1] by auto
  obtain p2 where p2: "p2 \<in> set (pairs r)" "invoiceId p2 = docId d2" "tripSheetId p2 = docId ts"
    using partner_Some[OF dist good d2 f2] by auto
  have "distinct (map tripSheetId (pairs r))" using dd by simp
  then have "p1 = p2" using p1 p2 by (metis distinct_map inj_onD)
  then have "docId d1 = docId d2" using p1 p2 by simp
  then show ?thesis using same_id[OF dist d1(1) d2(1)] by simp
qed

lemma partner_complete:
  assumes dist: "distinct (map docId ds)" and good: "goodPairs ds (pairs r)"
    and p: "p \<in> set (pairs r)" and ne: "tripSheetId p \<noteq> []"
  shows "\<exists>d ts. d \<in> set ds \<and> documentType d = invoice \<and> docId d = invoiceId p
            \<and> findPairedTripSheet (createPairMap r) ds d = Some ts \<and> docId ts = tripSheetId p"
proof -
  have dd: "distinct (map invoiceId (pairs r) @ map tripSheetId (pairs r))"
    using good by (simp add: goodPairs_def)
  obtain d where d: "d \<in> set ds" "documentType d = invoice" "docId d = invoiceId p"
    using good p by (auto simp: goodPairs_def)
  obtain x where x: "x \<in> set ds" "documentType x = trip_sheet" "docId x = tripSheetId p"
    using good p by (auto simp: goodPairs_def)
  have m: "createPairMap r (docId d) = Some (tripSheetId p)"
    using createPairMap_char[OF dd, of "docId d" "tripSheetId p"] p d by auto
  have "find (\<lambda>y. docId y = tripSheetId p) ds = Some x"
    using find_id_distinct[OF dist x(1)] x by simp
  then have "findPairedTripSheet (createPairMap r) ds d = Some x"
    using m ne by (simp add: findPairedTripSheet_def)
  then show ?thesis using d x by blast
qed

lemma good_partnersOK:
  "distinct (map docId ds) \<Longrightarrow> goodPairs ds (pairs r) \<Longrightarrow> partnersOK (createPairMap r) ds"
  unfolding partnersOK_def using partner_Some partner_inj by blast

lemma distinct_filter_head:
  assumes "distinct (map f (filter Q (x # xs)))" "Q x" "y \<in> set xs" "Q y"
  shows "f y \<noteq> f x"
proof -
  have "f x \<notin> set (map f (filter Q xs))" using assms(1,2) by simp
  moreover have "f y \<in> set (map f (filter Q xs))" using assms(3,4) by simp
  ultimately show ?thesis by metis
qed

lemma groupGet_update:
  "groupGet (AList.update k v g) t = (if t = k then v else groupGet g t)"
  by (simp add: groupGet_def update_conv')

lemma groupGet_initial: "groupGet (map (\<lambda>t. (t, [])) typeKeys) t = []"
  by (cases t) (simp_all add: groupGet_def typeKeys_def)

lemma groupInvoices_skip:
  "documentType doc \<noteq> invoice \<or> docId doc \<in> P \<Longrightarrow>
     groupInvoices D pm (doc # rest) (g, P) = groupInvoices D pm rest (g, P)"
  by auto

lemma groupInvoices_take:
  "documentType doc = invoice \<Longrightarrow> docId doc \<notin> P \<Longrightarrow>
     groupInvoices D pm (doc # rest) (g, P) =
       groupInvoices D pm rest
         (AList.update (typeOrOther doc) (groupGet g (typeOrOther doc) @ unitDocs pm D doc) g,
          P \<union> docId ` set (unitDocs pm D doc))"
  by (cases "findPairedTripSheet pm D doc") (simp_all add: unitDocs_def Let_def insert_commute)

declare groupInvoices.simps(2) [simp del]

lemma groupInvoices_char:
  assumes "\<forall>d \<in> set ds. documentType d = invoice \<longrightarrow> docId d \<notin> P"
    and "distinct (map docId (filter (\<lambda>d. documentType d = invoice) ds))"
    and "\<forall>d \<in> set ds. \<forall>d' \<in> set ds. \<forall>ts. documentType d = invoice \<and> documentType d' = invoice
           \<and> findPairedTripSheet pm D d = Some ts \<longrightarrow> docId ts \<noteq> docId d'"
  shows "groupGet (fst (groupInvoices D pm ds (g, P))) t =
           groupGet g t @ concat (map (unitDocs pm D)
             (filter (\<lambda>d. documentType d = invoice \<and> typeOrOther d = t) ds))
       \<and> snd (groupInvoices D pm ds (g, P)) =
           P \<union> docId ` set (concat (map (unitDocs pm D) (filter (\<lambda>d. documentType d = invoice) ds)))"
  using assms
proof (induction ds arbitrary: g P)
  case Nil
  show ?case by simp
next
  case (Cons doc rest)
  show ?case
  proof (cases "documentType doc = invoice")
    case False
    have a: "\<forall>d \<in> set rest. documentType d = invoice \<longrightarrow> docId d \<notin> P" using Cons.prems(1) by simp
    have b: "distinct (map docId (filter (\<lambda>d. documentType d = invoice) rest))"
      using Cons.prems(2) False by simp
    have c: "\<forall>d \<in> set rest. \<forall>d' \<in> set rest. \<forall>ts. documentType d = invoice \<and> documentType d' = invoice
           \<and> findPairedTripSheet pm D d = Some ts \<longrightarrow> docId ts \<noteq> docId d'"
      using Cons.prems(3) by simp
    show ?thesis
      using Cons.IH[OF a b c, of g] False by (simp add: groupInvoices_skip)
  next
    case True
    have np: "docId doc \<notin> P" using Cons.prems(1) True by simp
    define P' where "P' = P \<union> docId ` set (unitDocs pm D doc)"
    define g' where "g' = AList.update (typeOrOther doc) (groupGet g (typeOrOther doc) @ unitDocs pm D doc) g"
    have step: "groupInvoices D pm (doc # rest) (g, P) = groupInvoices D pm rest (g', P')"
      unfolding g'_def P'_def by (rule groupInvoices_take[OF True np])
    have b: "distinct (map docId (filter (\<lambda>d. documentType d = invoice) rest))"
      using Cons.prems(2) True by simp
    have c: "\<forall>d \<in> set rest. \<forall>d' \<in> set rest. \<forall>ts. documentType d = invoice \<and> documentType d' = invoice
           \<and> findPairedTripSheet pm D d = Some ts \<longrightarrow> docId ts \<noteq> docId d'"
      using Cons.prems(3) by simp
    have a: "\<forall>d \<in> set rest. documentType d = invoice \<longrightarrow> docId d \<notin> P'"
    proof (intro ballI impI)
      fix d assume d: "d \<in> set rest" "documentType d = invoice"
      have 1: "docId d \<notin> P" using Cons.prems(1) d by simp
      have 2: "docId d \<noteq> docId doc"
        using distinct_filter_head[OF Cons.prems(2) True d] .
      have 3: "\<And>ts. findPairedTripSheet pm D doc = Some ts \<Longrightarrow> docId ts \<noteq> docId d"
        using Cons.prems(3) True d by simp
      show "docId d \<notin> P'" using 1 2 3
        by (cases "findPairedTripSheet pm D doc") (auto simp: P'_def unitDocs_def)
    qed
    show ?thesis
      unfolding step using Cons.IH[OF a b c, of g'] True
      by (auto simp: g'_def P'_def groupGet_update)
  qed
qed

lemma groupTripSheets_skip:
  "\<not> (documentType doc = trip_sheet \<and> docId doc \<notin> P) \<Longrightarrow>
     groupTripSheets (doc # rest) (g, P) = groupTripSheets rest (g, P)"
  by auto

lemma groupTripSheets_take:
  "documentType doc = trip_sheet \<Longrightarrow> docId doc \<notin> P \<Longrightarrow>
     groupTripSheets (doc # rest) (g, P) =
       groupTripSheets rest (AList.update other (groupGet g other @ [doc]) g, insert (docId doc) P)"
  by simp

declare groupTripSheets.simps(2) [simp del]

lemma groupTripSheets_char:
  assumes "distinct (map docId (filter (\<lambda>d. documentType d = trip_sheet) ds))"
  shows "groupGet (fst (groupTripSheets ds (g, P))) t =
           groupGet g t @ (if t = other
                           then filter (\<lambda>d. documentType d = trip_sheet \<and> docId d \<notin> P) ds else [])"
  using assms
proof (induction ds arbitrary: g P)
  case Nil
  show ?case by simp
next
  case (Cons doc rest)
  show ?case
  proof (cases "documentType doc = trip_sheet \<and> docId doc \<notin> P")
    case False
    have d: "distinct (map docId (filter (\<lambda>d. documentType d = trip_sheet) rest))"
      using Cons.prems by (simp split: if_splits)
    show ?thesis using Cons.IH[OF d, of g P] False by (auto simp: groupTripSheets_skip)
  next
    case True
    have d: "distinct (map docId (filter (\<lambda>d. documentType d = trip_sheet) rest))"
      using Cons.prems True by simp
    have "\<And>x. x \<in> set rest \<Longrightarrow> documentType x = trip_sheet \<Longrightarrow> docId x \<noteq> docId doc"
      using distinct_filter_head[OF Cons.prems] True by blast
    then have e: "filter (\<lambda>d. documentType d = trip_sheet \<and> docId d \<noteq> docId doc \<and> docId d \<notin> P) rest =
             filter (\<lambda>d. documentType d = trip_sheet \<and> docId d \<notin> P) rest"
      by (intro filter_cong) auto
    show ?thesis
      using Cons.IH[OF d, of "AList.update other (groupGet g other @ [doc]) g" "insert (docId doc) P"] True
      by (simp add: groupTripSheets_take e groupGet_update)
  qed
qed

lemma paired_member:
  "ts \<in> set (pairedTripSheets pm D) \<Longrightarrow>
     \<exists>d. d \<in> set D \<and> documentType d = invoice \<and> findPairedTripSheet pm D d = Some ts"
proof -
  assume "ts \<in> set (pairedTripSheets pm D)"
  then obtain d where d: "d \<in> set (filter (\<lambda>d. documentType d = invoice) D)"
    and m: "ts \<in> set (case findPairedTripSheet pm D d of Some ts \<Rightarrow> [ts] | None \<Rightarrow> [])"
    unfolding pairedTripSheets_def set_concat set_map by blast
  have "findPairedTripSheet pm D d = Some ts"
    using m by (cases "findPairedTripSheet pm D d") simp_all
  then show ?thesis using d by auto
qed

lemma paired_subset:
  assumes "partnersOK pm D"
  shows "set (pairedTripSheets pm D) \<subseteq> set (filter (\<lambda>d. documentType d = trip_sheet) D)"
proof
  fix ts assume "ts \<in> set (pairedTripSheets pm D)"
  then obtain d where "d \<in> set D" "documentType d = invoice" "findPairedTripSheet pm D d = Some ts"
    using paired_member by blast
  then have "ts \<in> set D \<and> documentType ts = trip_sheet"
    using assms unfolding partnersOK_def by blast
  then show "ts \<in> set (filter (\<lambda>d. documentType d = trip_sheet) D)" by simp
qed

lemma paired_distinct_gen:
  assumes "\<forall>d1 \<in> set xs. \<forall>d2 \<in> set xs. \<forall>ts. q d1 = Some ts \<and> q d2 = Some ts \<longrightarrow> d1 = d2"
    and "distinct xs"
  shows "distinct (concat (map (\<lambda>d. case q d of Some ts \<Rightarrow> [ts] | None \<Rightarrow> []) xs))"
  using assms
proof (induction xs)
  case Nil
  show ?case by simp
next
  case (Cons x xs)
  have ih: "distinct (concat (map (\<lambda>d. case q d of Some ts \<Rightarrow> [ts] | None \<Rightarrow> []) xs))"
    using Cons by simp
  show ?case
  proof (cases "q x")
    case None
    then show ?thesis using ih by simp
  next
    case (Some ts)
    have "ts \<notin> set (concat (map (\<lambda>d. case q d of Some ts \<Rightarrow> [ts] | None \<Rightarrow> []) xs))"
    proof
      assume "ts \<in> set (concat (map (\<lambda>d. case q d of Some ts \<Rightarrow> [ts] | None \<Rightarrow> []) xs))"
      then obtain y where y: "y \<in> set xs" "q y = Some ts" by (auto split: option.splits)
      then have "x = y" using Cons.prems(1) Some by simp
      then show False using y Cons.prems(2) by simp
    qed
    then show ?thesis using ih Some by simp
  qed
qed

lemma partnersOK_inj:
  "partnersOK pm D \<Longrightarrow> d1 \<in> set D \<Longrightarrow> d2 \<in> set D \<Longrightarrow>
     documentType d1 = invoice \<Longrightarrow> documentType d2 = invoice \<Longrightarrow>
     findPairedTripSheet pm D d1 = Some ts \<Longrightarrow> findPairedTripSheet pm D d2 = Some ts \<Longrightarrow> d1 = d2"
  unfolding partnersOK_def by blast

lemma partnersOK_trip:
  "partnersOK pm D \<Longrightarrow> d \<in> set D \<Longrightarrow> documentType d = invoice \<Longrightarrow>
     findPairedTripSheet pm D d = Some ts \<Longrightarrow> ts \<in> set D \<and> documentType ts = trip_sheet"
  unfolding partnersOK_def by blast

lemma paired_distinct:
  assumes "distinct (map docId D)" "partnersOK pm D"
  shows "distinct (pairedTripSheets pm D)"
  unfolding pairedTripSheets_def
proof (rule paired_distinct_gen)
  show "distinct (filter (\<lambda>d. documentType d = invoice) D)"
    using assms(1) by (simp add: distinct_map)
  show "\<forall>d1\<in>set (filter (\<lambda>d. documentType d = invoice) D).
       \<forall>d2\<in>set (filter (\<lambda>d. documentType d = invoice) D).
          \<forall>ts. findPairedTripSheet pm D d1 = Some ts \<and> findPairedTripSheet pm D d2 = Some ts \<longrightarrow> d1 = d2"
  proof (intro ballI allI impI)
    fix d1 d2 ts
    assume "d1 \<in> set (filter (\<lambda>d. documentType d = invoice) D)"
      "d2 \<in> set (filter (\<lambda>d. documentType d = invoice) D)"
      "findPairedTripSheet pm D d1 = Some ts \<and> findPairedTripSheet pm D d2 = Some ts"
    then show "d1 = d2" using partnersOK_inj[OF assms(2), of d1 d2 ts] by simp
  qed
qed

lemma unitDocs_ids:
  "set (concat (map (unitDocs pm D) xs)) =
     set xs \<union> set (concat (map (\<lambda>d. case findPairedTripSheet pm D d of Some ts \<Rightarrow> [ts] | None \<Rightarrow> []) xs))"
  by (induction xs) (auto simp: unitDocs_def split: option.splits)

lemma groupByExpenseType_char:
  assumes dist: "distinct (map docId D)" and ok: "partnersOK pm D"
  shows "groupGet (groupByExpenseType D pm) t =
           concat (map (unitDocs pm D) (invoicesOfType D t))
           @ (if t = other then loneTripSheets pm D else [])"
proof -
  define X where "X = groupInvoices D pm D (map (\<lambda>t. (t, [])) typeKeys, {})"
  have a1: "\<forall>d \<in> set D. documentType d = invoice \<longrightarrow> docId d \<notin> {}" by simp
  have a2: "distinct (map docId (filter (\<lambda>d. documentType d = invoice) D))"
    using dist by (simp add: distinct_map_filter)
  have a3: "\<forall>d \<in> set D. \<forall>d' \<in> set D. \<forall>ts. documentType d = invoice \<and> documentType d' = invoice
           \<and> findPairedTripSheet pm D d = Some ts \<longrightarrow> docId ts \<noteq> docId d'"
  proof (intro ballI allI impI)
    fix d d' ts
    assume d: "d \<in> set D" "d' \<in> set D"
      and h: "documentType d = invoice \<and> documentType d' = invoice \<and> findPairedTripSheet pm D d = Some ts"
    have ts: "ts \<in> set D" "documentType ts = trip_sheet"
      using partnersOK_trip[OF ok d(1), of ts] h by simp_all
    show "docId ts \<noteq> docId d'"
    proof
      assume "docId ts = docId d'"
      then have "ts = d'" using same_id[OF dist ts(1) d(2)] by simp
      then show False using ts h by simp
    qed
  qed
  have c: "\<And>t. groupGet (fst X) t = concat (map (unitDocs pm D) (invoicesOfType D t))"
    and p: "snd X = docId ` set (concat (map (unitDocs pm D) (filter (\<lambda>d. documentType d = invoice) D)))"
    using groupInvoices_char[OF a1 a2 a3, of "map (\<lambda>t. (t, [])) typeKeys"]
    by (simp_all add: X_def groupGet_initial invoicesOfType_def)
  have a4: "distinct (map docId (filter (\<lambda>d. documentType d = trip_sheet) D))"
    using dist by (simp add: distinct_map_filter)
  define U where "U = set (concat (map (unitDocs pm D) (filter (\<lambda>d. documentType d = invoice) D)))"
  have U: "U = set (filter (\<lambda>d. documentType d = invoice) D) \<union> set (pairedTripSheets pm D)"
    unfolding U_def unitDocs_ids pairedTripSheets_def ..
  have pU: "snd X = docId ` U" unfolding p U_def ..
  have sub: "set (pairedTripSheets pm D) \<subseteq> set D" using paired_subset[OF ok] by auto
  have mem: "\<And>d. d \<in> set D \<Longrightarrow> documentType d = trip_sheet \<Longrightarrow>
        (docId d \<in> snd X) = (d \<in> set (pairedTripSheets pm D))"
  proof -
    fix d assume d: "d \<in> set D" "documentType d = trip_sheet"
    show "(docId d \<in> snd X) = (d \<in> set (pairedTripSheets pm D))"
    proof
      assume "docId d \<in> snd X"
      then obtain x where x: "x \<in> U" "docId x = docId d" unfolding pU by (metis imageE)
      have xD: "x \<in> set D" using x(1) sub unfolding U by auto
      have "x = d" using same_id[OF dist xD d(1)] x(2) by simp
      then have "d \<in> set (filter (\<lambda>d. documentType d = invoice) D) \<or> d \<in> set (pairedTripSheets pm D)"
        using x(1) unfolding U by simp
      then show "d \<in> set (pairedTripSheets pm D)" using d(2) by auto
    next
      assume "d \<in> set (pairedTripSheets pm D)"
      then have "d \<in> U" unfolding U by simp
      then show "docId d \<in> snd X" unfolding pU by (rule imageI)
    qed
  qed
  have lone: "filter (\<lambda>d. documentType d = trip_sheet \<and> docId d \<notin> snd X) D = loneTripSheets pm D"
    unfolding loneTripSheets_def filter_filter
    by (rule filter_cong[OF refl]) (use mem in blast)
  have "groupByExpenseType D pm = fst (groupTripSheets D (fst X, snd X))"
    by (simp add: groupByExpenseType_def X_def)
  then show ?thesis
    using groupTripSheets_char[OF a4, of "fst X" "snd X" t] c[of t] lone by simp
qed

lemma by_type_mset:
  "mset (concat (map (\<lambda>t. concat (map f (invoicesOfType D t))) typeKeys)) =
   mset (concat (map f (filter (\<lambda>d. documentType d = invoice) D)))"
proof (induction D)
  case Nil
  show ?case by (simp add: invoicesOfType_def typeKeys_def)
next
  case (Cons x xs)
  show ?case
  proof (cases "documentType x = invoice")
    case False
    then show ?thesis using Cons by (simp add: invoicesOfType_def)
  next
    case True
    then show ?thesis using Cons
      by (cases "typeOrOther x") (simp_all add: invoicesOfType_def typeKeys_def)
  qed
qed

lemma unitDocs_mset:
  "mset (concat (map (unitDocs pm D) xs)) =
     mset xs + mset (concat (map (\<lambda>d. case findPairedTripSheet pm D d of Some ts \<Rightarrow> [ts] | None \<Rightarrow> []) xs))"
  by (induction xs) (auto simp: unitDocs_def split: option.splits)

lemma kinds_mset:
  "mset (filter (\<lambda>d. documentType d = invoice) D) + mset (filter (\<lambda>d. documentType d = trip_sheet) D) = mset D"
proof -
  have "filter (\<lambda>d. documentType d = trip_sheet) D = filter (\<lambda>d. \<not> documentType d = invoice) D"
    by (rule filter_cong[OF refl]) (metis DocumentType.exhaust DocumentType.distinct(1))
  then show ?thesis by simp
qed

lemma paired_lone_mset:
  assumes dist: "distinct (map docId D)" and ok: "partnersOK pm D"
  shows "mset (pairedTripSheets pm D) + mset (loneTripSheets pm D) =
         mset (filter (\<lambda>d. documentType d = trip_sheet) D)"
  unfolding loneTripSheets_def
proof (rule mset_distinct_subset)
  show "distinct (pairedTripSheets pm D)" by (rule paired_distinct[OF dist ok])
  show "distinct (filter (\<lambda>d. documentType d = trip_sheet) D)"
    using dist by (simp add: distinct_map)
  show "set (pairedTripSheets pm D) \<subseteq> set (filter (\<lambda>d. documentType d = trip_sheet) D)"
    by (rule paired_subset[OF ok])
qed

lemma groups_concat:
  assumes dist: "distinct (map docId D)" and ok: "partnersOK pm D"
  shows "mset (concat (map (groupGet (groupByExpenseType D pm)) typeKeys)) =
         mset (concat (map (\<lambda>t. concat (map (unitDocs pm D) (invoicesOfType D t))) typeKeys))
         + mset (loneTripSheets pm D)"
  by (simp add: groupByExpenseType_char[OF dist ok] typeKeys_def)

lemma groups_mset:
  assumes dist: "distinct (map docId D)" and ok: "partnersOK pm D"
  shows "mset (concat (map (groupGet (groupByExpenseType D pm)) typeKeys)) = mset D"
proof -
  have "mset (concat (map (groupGet (groupByExpenseType D pm)) typeKeys)) =
        mset (filter (\<lambda>d. documentType d = invoice) D) + mset (pairedTripSheets pm D)
        + mset (loneTripSheets pm D)"
    unfolding groups_concat[OF dist ok] by_type_mset unitDocs_mset pairedTripSheets_def ..
  also have "\<dots> = mset (filter (\<lambda>d. documentType d = invoice) D)
        + mset (filter (\<lambda>d. documentType d = trip_sheet) D)"
    using paired_lone_mset[OF dist ok] by (simp add: add.assoc)
  finally show ?thesis unfolding kinds_mset .
qed

lemma concat_member_subset: "t \<in> set ks \<Longrightarrow> mset (f t) \<subseteq># mset (concat (map f ks))"
  by (induction ks) (auto intro: subset_mset.add_increasing)

lemma group_sub_mset:
  assumes dist: "distinct (map docId D)" and ok: "partnersOK pm D"
  shows "mset (groupGet (groupByExpenseType D pm) t) \<subseteq># mset D"
  using concat_member_subset[OF typeKeys_all, of "groupGet (groupByExpenseType D pm)" t]
  by (simp add: groups_mset[OF dist ok])

lemma distinct_mset_sub:
  assumes "mset xs \<subseteq># mset ys" "distinct ys"
  shows "distinct xs"
proof -
  have "\<And>a. count (mset xs) a \<le> 1"
  proof -
    fix a
    have "count (mset xs) a \<le> count (mset ys) a" using assms(1) by (rule mset_subset_eq_count)
    also have "\<dots> \<le> 1" using assms(2) by (simp add: distinct_count_atmost_1)
    finally show "count (mset xs) a \<le> 1" .
  qed
  then show ?thesis
    unfolding distinct_count_atmost_1
    by (metis count_mset_0_iff le_neq_implies_less less_one)
qed

lemma distinct_map_sub:
  assumes "mset xs \<subseteq># mset ys" "distinct (map f ys)"
  shows "distinct (map f xs)"
proof -
  have "image_mset f (mset xs) \<subseteq># image_mset f (mset ys)"
    using assms(1) by (rule image_mset_subseteq_mono)
  then have "mset (map f xs) \<subseteq># mset (map f ys)" by simp
  then show ?thesis using assms(2) by (rule distinct_mset_sub)
qed

lemma unitsLoop_skip:
  "docId doc \<in> P \<Longrightarrow> unitsLoop docs pm (doc # rest) (u, P) = unitsLoop docs pm rest (u, P)"
  by simp

lemma unitsLoop_invoice:
  "docId doc \<notin> P \<Longrightarrow> documentType doc = invoice \<Longrightarrow>
     unitsLoop docs pm (doc # rest) (u, P) =
       unitsLoop docs pm rest
         (u @ [\<lparr>primaryDoc = doc, pairedDoc = findPairedTripSheet pm docs doc\<rparr>],
          P \<union> docId ` set (unitDocs pm docs doc))"
  by (cases "findPairedTripSheet pm docs doc") (simp_all add: unitDocs_def Let_def insert_commute)

lemma unitsLoop_lone:
  "docId doc \<notin> P \<Longrightarrow> documentType doc \<noteq> invoice \<Longrightarrow>
     unitsLoop docs pm (doc # rest) (u, P) =
       unitsLoop docs pm rest (u @ [\<lparr>primaryDoc = doc, pairedDoc = None\<rparr>], insert (docId doc) P)"
  by simp

declare unitsLoop.simps(2) [simp del]

lemma unitsLoop_lones:
  assumes "\<forall>d \<in> set ls. documentType d \<noteq> invoice"
    and "distinct (map docId ls)" and "docId ` set ls \<inter> P = {}"
  shows "fst (unitsLoop docs pm ls (u, P)) = u @ map (\<lambda>d. \<lparr>primaryDoc = d, pairedDoc = None\<rparr>) ls"
  using assms
proof (induction ls arbitrary: u P)
  case Nil
  show ?case by simp
next
  case (Cons d ls)
  have n: "docId d \<notin> P" and k: "documentType d \<noteq> invoice" using Cons.prems by auto
  have a: "\<forall>d \<in> set ls. documentType d \<noteq> invoice" and b: "distinct (map docId ls)"
    and c: "docId ` set ls \<inter> insert (docId d) P = {}"
    using Cons.prems by auto
  show ?case
    unfolding unitsLoop_lone[OF n k] using Cons.IH[OF a b c] by simp
qed

lemma unitsLoop_char:
  assumes "\<forall>d \<in> set us. documentType d = invoice"
    and "\<forall>d \<in> set ls. documentType d \<noteq> invoice"
    and "distinct (map docId (concat (map (unitDocs pm docs) us) @ ls))"
    and "docId ` set (concat (map (unitDocs pm docs) us) @ ls) \<inter> P = {}"
  shows "fst (unitsLoop docs pm (concat (map (unitDocs pm docs) us) @ ls) (u, P)) =
           u @ map (\<lambda>d. \<lparr>primaryDoc = d, pairedDoc = findPairedTripSheet pm docs d\<rparr>) us
             @ map (\<lambda>d. \<lparr>primaryDoc = d, pairedDoc = None\<rparr>) ls"
  using assms
proof (induction us arbitrary: u P)
  case Nil
  then show ?case using unitsLoop_lones[of ls P docs pm u] by simp
next
  case (Cons d us)
  define rest where "rest = concat (map (unitDocs pm docs) us) @ ls"
  define P' where "P' = P \<union> docId ` set (unitDocs pm docs d)"
  define u' where "u' = u @ [\<lparr>primaryDoc = d, pairedDoc = findPairedTripSheet pm docs d\<rparr>]"
  have whole: "concat (map (unitDocs pm docs) (d # us)) @ ls = unitDocs pm docs d @ rest"
    by (simp add: rest_def)
  have dist: "distinct (map docId (unitDocs pm docs d @ rest))"
    and disj: "docId ` set (unitDocs pm docs d @ rest) \<inter> P = {}"
    using Cons.prems(3,4) unfolding whole by simp_all
  have n: "docId d \<notin> P" using disj by (auto simp: unitDocs_def)
  have k: "documentType d = invoice" using Cons.prems(1) by simp
  have a: "\<forall>d \<in> set us. documentType d = invoice" using Cons.prems(1) by simp
  have b: "distinct (map docId rest)" using dist by simp
  have c: "docId ` set rest \<inter> P' = {}"
    using dist disj unfolding P'_def by auto
  have ih: "fst (unitsLoop docs pm rest (u', P')) =
           u' @ map (\<lambda>d. \<lparr>primaryDoc = d, pairedDoc = findPairedTripSheet pm docs d\<rparr>) us
             @ map (\<lambda>d. \<lparr>primaryDoc = d, pairedDoc = None\<rparr>) ls"
    using Cons.IH[OF a Cons.prems(2), of P' u'] b c unfolding rest_def by simp
  have step: "unitsLoop docs pm (unitDocs pm docs d @ rest) (u, P) = unitsLoop docs pm rest (u', P')"
  proof (cases "findPairedTripSheet pm docs d")
    case None
    then have "unitDocs pm docs d @ rest = d # rest" by (simp add: unitDocs_def)
    then show ?thesis using unitsLoop_invoice[OF n k, of docs pm rest u] by (simp add: u'_def P'_def)
  next
    case (Some ts)
    then have e: "unitDocs pm docs d @ rest = d # ts # rest" by (simp add: unitDocs_def)
    have "docId ts \<in> P'" using Some by (simp add: P'_def unitDocs_def)
    then show ?thesis
      unfolding e using unitsLoop_invoice[OF n k, of docs pm "ts # rest" u]
      by (simp add: u'_def P'_def unitsLoop_skip)
  qed
  show ?case unfolding whole step ih by (simp add: u'_def)
qed

lemma find_sub:
  assumes dist: "distinct (map docId D)" and sub: "set G \<subseteq> set D"
    and mem: "\<And>x. find (\<lambda>y. docId y = i) D = Some x \<Longrightarrow> x \<in> set G"
  shows "find (\<lambda>y. docId y = i) G = find (\<lambda>y. docId y = i) D"
proof (cases "find (\<lambda>y. docId y = i) D")
  case None
  then have "i \<notin> docId ` set D" by (simp add: find_id_None)
  then have "i \<notin> docId ` set G" using sub by auto
  then have g: "find (\<lambda>y. docId y = i) G = None" by (simp add: find_id_None)
  show ?thesis unfolding g None ..
next
  case (Some x)
  have x: "x \<in> set D" "docId x = i" using find_id_Some[OF Some] by auto
  have xg: "x \<in> set G" using mem[OF Some] .
  have "find (\<lambda>y. docId y = i) G \<noteq> None"
  proof
    assume "find (\<lambda>y. docId y = i) G = None"
    then have "i \<notin> docId ` set G" unfolding find_id_None .
    then show False using xg x(2) by blast
  qed
  then obtain y where y: "find (\<lambda>y. docId y = i) G = Some y" by blast
  have yg: "y \<in> set G" "docId y = i" using find_id_Some[OF y] by blast+
  have yd: "y \<in> set D" using yg(1) sub by blast
  have "docId y = docId x" using yg(2) x(2) by simp
  then have "y = x" by (rule same_id[OF dist yd x(1)])
  then show ?thesis unfolding y Some by simp
qed

lemma findPaired_sub:
  assumes dist: "distinct (map docId D)" and sub: "set G \<subseteq> set D"
    and mem: "\<And>ts. findPairedTripSheet pm D d = Some ts \<Longrightarrow> ts \<in> set G"
  shows "findPairedTripSheet pm G d = findPairedTripSheet pm D d"
proof (cases "pm (docId d)")
  case None
  then show ?thesis by (simp add: findPairedTripSheet_def)
next
  case (Some tid)
  show ?thesis
  proof (cases "tid = []")
    case True
    then show ?thesis using Some by (simp add: findPairedTripSheet_def)
  next
    case False
    have "find (\<lambda>y. docId y = tid) G = find (\<lambda>y. docId y = tid) D"
    proof (rule find_sub[OF dist sub])
      fix x assume "find (\<lambda>y. docId y = tid) D = Some x"
      then have "findPairedTripSheet pm D d = Some x" using Some False by (simp add: findPairedTripSheet_def)
      then show "x \<in> set G" by (rule mem)
    qed
    then show ?thesis using Some False by (simp add: findPairedTripSheet_def)
  qed
qed

lemma lone_not_invoice: "d \<in> set (loneTripSheets pm D) \<Longrightarrow> documentType d \<noteq> invoice"
  by (simp add: loneTripSheets_def)

lemma units_of_group:
  assumes dist: "distinct (map docId D)" and ok: "partnersOK pm D"
  shows "createDocumentUnits (groupGet (groupByExpenseType D pm) t) pm = unitsOfType pm D t"
proof -
  define G where "G = groupGet (groupByExpenseType D pm) t"
  define invs where "invs = invoicesOfType D t"
  define L where "L = (if t = other then loneTripSheets pm D else [])"
  have g: "G = concat (map (unitDocs pm D) invs) @ L"
    unfolding G_def invs_def L_def by (rule groupByExpenseType_char[OF dist ok])
  have sub: "set G \<subseteq> set D"
    using set_mset_mono[OF group_sub_mset[OF dist ok, of t]] by (simp add: G_def)
  have q: "\<And>d. d \<in> set invs \<Longrightarrow> findPairedTripSheet pm G d = findPairedTripSheet pm D d"
  proof -
    fix d assume d: "d \<in> set invs"
    show "findPairedTripSheet pm G d = findPairedTripSheet pm D d"
    proof (rule findPaired_sub[OF dist sub])
      fix ts assume "findPairedTripSheet pm D d = Some ts"
      then have "ts \<in> set (unitDocs pm D d)" by (simp add: unitDocs_def)
      then have "ts \<in> set (concat (map (unitDocs pm D) invs))" using d by auto
      then show "ts \<in> set G" unfolding g by simp
    qed
  qed
  have u: "map (unitDocs pm G) invs = map (unitDocs pm D) invs"
    by (rule map_cong[OF refl]) (simp add: unitDocs_def q)
  have g': "G = concat (map (unitDocs pm G) invs) @ L" unfolding u by (rule g)
  have a1: "\<forall>d \<in> set invs. documentType d = invoice" by (simp add: invs_def invoicesOfType_def)
  have a2: "\<forall>d \<in> set L. documentType d \<noteq> invoice" using lone_not_invoice by (auto simp: L_def)
  have dg: "distinct (map docId G)"
    using distinct_map_sub[OF group_sub_mset[OF dist ok, of t] dist] by (simp add: G_def)
  have a3: "distinct (map docId (concat (map (unitDocs pm G) invs) @ L))" using dg g' by simp
  have a4: "docId ` set (concat (map (unitDocs pm G) invs) @ L) \<inter> {} = {}" by simp
  have "fst (unitsLoop G pm (concat (map (unitDocs pm G) invs) @ L) ([], {})) =
      [] @ map (\<lambda>d. \<lparr>primaryDoc = d, pairedDoc = findPairedTripSheet pm G d\<rparr>) invs
         @ map (\<lambda>d. \<lparr>primaryDoc = d, pairedDoc = None\<rparr>) L"
    by (rule unitsLoop_char[OF a1 a2 a3 a4])
  moreover have "unitsLoop G pm G ([], {}) = unitsLoop G pm (concat (map (unitDocs pm G) invs) @ L) ([], {})"
    using g' by (rule arg_cong[where f = "\<lambda>x. unitsLoop G pm x ([], {})"])
  moreover have "map (\<lambda>d. \<lparr>primaryDoc = d, pairedDoc = findPairedTripSheet pm G d\<rparr>) invs =
      map (\<lambda>d. \<lparr>primaryDoc = d, pairedDoc = findPairedTripSheet pm D d\<rparr>) invs"
    by (rule map_cong[OF refl]) (simp add: q)
  ultimately show ?thesis
    by (simp add: createDocumentUnits_def G_def[symmetric] unitsOfType_def invs_def L_def)
qed






lemma suggestedOrder_buckets:
  "suggestedOrder (sortDocuments tz cy documents pairingResult) =
     concat (map (\<lambda>t. map docId (flattenUnits (sortUnits tz cy
        (createDocumentUnits (groupGet (groupByExpenseType documents (createPairMap pairingResult)) t)
           (createPairMap pairingResult)))))
       typeKeys)"
proof -
  define pairMap where "pairMap = createPairMap pairingResult"
  define groups where "groups = groupByExpenseType documents pairMap"
  have keys: "map fst (sortGroupsByDate tz cy groups pairMap) = typeKeys"
    by (simp add: sortGroupsByDate_keys groups_def groupByExpenseType_keys)
  have "generateFinalOrder (sortGroupsByDate tz cy groups pairMap) =
          concat (map (\<lambda>t. map docId (groupGet (sortGroupsByDate tz cy groups pairMap) t)) typeKeys)"
    unfolding generateFinalOrder_def Let_def keys sortedTypes_typeKeys ..
  then show ?thesis
    by (simp add: sortDocuments_def Let_def pairMap_def groups_def sortGroupsByDate_get)
qed




subsection \<open>The order of the buckets and of their units\<close>

lemma find_pair_None:
  "(find (\<lambda>q. invoiceId q = i) ps = None) = (i \<notin> set (map invoiceId ps))"
  by (induction ps) auto

lemma invoice_not_tripId:
  assumes dist: "distinct (map docId ds)" and good: "goodPairs ds ps"
    and d: "d \<in> set ds" "documentType d = invoice" and p: "p \<in> set ps"
  shows "tripSheetId p \<noteq> docId d"
proof
  assume e: "tripSheetId p = docId d"
  have "tripSheetId p \<in> docId ` set (filter (\<lambda>doc. documentType doc = trip_sheet) ds)"
    using good p unfolding goodPairs_def by auto
  then obtain ts where ts: "ts \<in> set ds" "documentType ts = trip_sheet" "docId ts = tripSheetId p"
    by auto
  have "ts = d" by (rule same_id[OF dist ts(1) d(1)]) (simp add: ts(3) e)
  then show False using ts(2) d(2) by simp
qed

lemma partner_spec:
  assumes dist: "distinct (map docId ds)" and good: "goodPairs ds (pairs r)"
    and ne: "\<forall>p \<in> set (pairs r). tripSheetId p \<noteq> []"
    and d: "d \<in> set ds" "documentType d = invoice"
  shows "findPairedTripSheet (createPairMap r) ds d = pairedTripSheetOf (pairs r) ds d"
proof -
  have dp: "distinct (map invoiceId (pairs r) @ map tripSheetId (pairs r))"
    using good by (simp add: goodPairs_def)
  then have di: "distinct (map invoiceId (pairs r))" by simp
  show ?thesis
  proof (cases "find (\<lambda>p. invoiceId p = docId d) (pairs r)")
    case None
    then have n: "docId d \<notin> set (map invoiceId (pairs r))" by (simp add: find_pair_None)
    have "createPairMap r (docId d) = None"
    proof (rule ccontr)
      assume "createPairMap r (docId d) \<noteq> None"
      then obtain v where "createPairMap r (docId d) = Some v" by auto
      then obtain p where p: "p \<in> set (pairs r)"
        "(invoiceId p = docId d \<and> tripSheetId p = v) \<or> (tripSheetId p = docId d \<and> invoiceId p = v)"
        unfolding createPairMap_char[OF dp] by blast
      have "tripSheetId p \<noteq> docId d" by (rule invoice_not_tripId[OF dist good d p(1)])
      then have "invoiceId p = docId d" using p(2) by blast
      then show False using n p(1) by force
    qed
    then show ?thesis using None by (simp add: findPairedTripSheet_def pairedTripSheetOf_def)
  next
    case (Some p)
    then have p: "p \<in> set (pairs r)" "invoiceId p = docId d"
      by (auto dest: find_Some_iff[THEN iffD1] simp: in_set_conv_nth)
    have "createPairMap r (docId d) = Some (tripSheetId p)"
      unfolding createPairMap_char[OF dp] using p by blast
    moreover have "tripSheetId p \<noteq> []" using ne p(1) by blast
    ultimately show ?thesis using Some by (simp add: findPairedTripSheet_def pairedTripSheetOf_def)
  qed
qed

lemma paired_intro:
  assumes "d \<in> set D" "documentType d = invoice" "findPairedTripSheet pm D d = Some ts"
  shows "ts \<in> set (pairedTripSheets pm D)"
  using assms unfolding pairedTripSheets_def by force

lemma paired_tripIds:
  assumes dist: "distinct (map docId ds)" and good: "goodPairs ds (pairs r)"
    and ne: "\<forall>p \<in> set (pairs r). tripSheetId p \<noteq> []"
    and ts: "ts \<in> set ds"
  shows "(ts \<in> set (pairedTripSheets (createPairMap r) ds)) = (docId ts \<in> set (map tripSheetId (pairs r)))"
proof
  assume "ts \<in> set (pairedTripSheets (createPairMap r) ds)"
  then obtain d where d: "d \<in> set ds" "documentType d = invoice"
    "findPairedTripSheet (createPairMap r) ds d = Some ts"
    using paired_member by blast
  from partner_Some[OF dist good d] show "docId ts \<in> set (map tripSheetId (pairs r))" by force
next
  assume "docId ts \<in> set (map tripSheetId (pairs r))"
  then obtain p where p: "p \<in> set (pairs r)" "tripSheetId p = docId ts" by auto
  have "tripSheetId p \<noteq> []" using ne p(1) by blast
  from partner_complete[OF dist good p(1) this]
  obtain d ts' where d: "d \<in> set ds" "documentType d = invoice"
    "findPairedTripSheet (createPairMap r) ds d = Some ts'" "docId ts' = tripSheetId p" by blast
  have "ts' \<in> set ds" using partner_Some[OF dist good d(1,2,3)] by blast
  then have "ts' = ts" by (rule same_id[OF dist _ ts]) (simp add: d(4) p(2))
  then show "ts \<in> set (pairedTripSheets (createPairMap r) ds)"
    using paired_intro[OF d(1,2,3)] by simp
qed

lemma unitsOfType_bucketUnits:
  assumes dist: "distinct (map docId ds)" and good: "goodPairs ds (pairs r)"
    and ne: "\<forall>p \<in> set (pairs r). tripSheetId p \<noteq> []"
  shows "unitsOfType (createPairMap r) ds t = bucketUnits (pairs r) ds t"
proof -
  have a: "map (\<lambda>d. \<lparr>primaryDoc = d, pairedDoc = findPairedTripSheet (createPairMap r) ds d\<rparr>) (invoicesOfType ds t) =
        map (\<lambda>d. \<lparr>primaryDoc = d, pairedDoc = pairedTripSheetOf (pairs r) ds d\<rparr>)
         (filter (\<lambda>d. documentType d = invoice \<and> typeOrOther d = t) ds)"
    unfolding invoicesOfType_def
    by (rule map_cong[OF refl]) (simp add: partner_spec[OF dist good ne])
  have b: "loneTripSheets (createPairMap r) ds =
        filter (\<lambda>d. documentType d = trip_sheet \<and> docId d \<notin> set (map tripSheetId (pairs r))) ds"
    unfolding loneTripSheets_def filter_filter
    by (rule filter_cong[OF refl]) (use paired_tripIds[OF dist good ne] in blast)
  show ?thesis unfolding unitsOfType_def bucketUnits_def a b by simp
qed

lemma flatten_ids: "map docId (flattenUnits us) = concat (map unitIds us)"
  by (induction us) (auto simp: flattenUnits_def unitIds_def split: option.splits)

text \<open>
  Claim C7. Let the documents have distinct ids, let every pair join an invoice and a
  trip sheet of the documents, no id being in two pairs (the invariants of the data
  model), and let no pair name a trip sheet by the empty id. Then the suggested order
  is the concatenation of the buckets in the fixed order consumables, hotel, taxi,
  shipping, toll, train, other; the bucket of a category holds the units of
  \<open>bucketUnits\<close> (an invoice of the category with its paired trip sheet, or a lone
  document), sorted, each unit giving the id of its primary document and then the id
  of the paired one. The sorted units of a bucket are a permutation of
  its units, ascending by the parsed date of the primary document with unparseable
  dates last (\<open>unitLe\<close>), and the sort is stable: the units with one and the same
  parsed date (or all the units whose date does not parse) stand in their original
  relative order.
\<close>

theorem sorting_order:
  fixes tz :: TimeZone and cy :: int and documents :: "DocumentData list" and pairingResult :: PairingResult
  assumes dist: "distinct (map docId documents)"
    and good: "goodPairs documents (pairs pairingResult)"
    and ne: "\<forall>p \<in> set (pairs pairingResult). tripSheetId p \<noteq> []"
  defines "units \<equiv> bucketUnits (pairs pairingResult) documents"
  shows "suggestedOrder (sortDocuments tz cy documents pairingResult) =
           concat (map (\<lambda>t. concat (map unitIds (sortUnits tz cy (units t))))
                       [consumables, hotel, taxi, shipping, toll, train, other])
       \<and> sorted_wrt (unitLe tz cy) (sortUnits tz cy (units t))
       \<and> mset (sortUnits tz cy (units t)) = mset (units t)
       \<and> filter (\<lambda>x. parseDate tz cy (date (primaryDoc x)) = k) (sortUnits tz cy (units t)) =
           filter (\<lambda>x. parseDate tz cy (date (primaryDoc x)) = k) (units t)"
proof -
  have ok: "partnersOK (createPairMap pairingResult) documents"
    by (rule good_partnersOK[OF dist good])
  have u: "\<And>t. createDocumentUnits (groupGet (groupByExpenseType documents (createPairMap pairingResult)) t)
           (createPairMap pairingResult) = units t"
    unfolding units_def units_of_group[OF dist ok] by (rule unitsOfType_bucketUnits[OF dist good ne])
  have a: "suggestedOrder (sortDocuments tz cy documents pairingResult) =
           concat (map (\<lambda>t. concat (map unitIds (sortUnits tz cy (units t))))
                       [consumables, hotel, taxi, shipping, toll, train, other])"
    unfolding suggestedOrder_buckets u flatten_ids by (simp add: typeKeys_def)
  show ?thesis
    using a sortUnits_sorted[of tz cy "units t"] sortUnits_stable[of tz cy k "units t"]
    by (simp add: sortUnits_def mset_stableSort)
qed

theorem sorting_order_witness:
  "map (\<lambda>p. (invoiceId p, tripSheetId p)) (pairs (pairDocuments utc 2024 reorderDocuments)) =
     [(''invA'', ''tripA'')]
   \<and> map (\<lambda>u. (docId (primaryDoc u), map_option docId (pairedDoc u)))
        (bucketUnits (pairs (pairDocuments utc 2024 reorderDocuments)) reorderDocuments taxi) =
     [(''invA'', Some ''tripA''), (''invB'', None)]
   \<and> suggestedOrder (sortDocuments utc 2024 reorderDocuments (pairDocuments utc 2024 reorderDocuments)) =
     [''invB'', ''invA'', ''tripA'']"
proof -
  have d: "distinct (map docId reorderDocuments)" by code_simp
  have g: "goodPairs reorderDocuments (pairs (pairDocuments utc 2024 reorderDocuments))"
    by (rule pairDocuments_good[OF d])
  have p: "map (\<lambda>p. (invoiceId p, tripSheetId p)) (pairs (pairDocuments utc 2024 reorderDocuments)) =
     [(''invA'', ''tripA'')]"
    by code_simp
  have n: "\<forall>p \<in> set (pairs (pairDocuments utc 2024 reorderDocuments)). tripSheetId p \<noteq> []"
    by code_simp
  have e: "concat (map (\<lambda>t. concat (map unitIds (sortUnits utc 2024
          (bucketUnits (pairs (pairDocuments utc 2024 reorderDocuments)) reorderDocuments t))))
          [consumables, hotel, taxi, shipping, toll, train, other]) =
        [''invB'', ''invA'', ''tripA'']"
    by code_simp
  have b: "map (\<lambda>u. (docId (primaryDoc u), map_option docId (pairedDoc u)))
        (bucketUnits (pairs (pairDocuments utc 2024 reorderDocuments)) reorderDocuments taxi) =
     [(''invA'', Some ''tripA''), (''invB'', None)]"
    by code_simp
  show ?thesis
    using sorting_order[OF d g n, of utc 2024] e b p by (simp only:)
qed

subsection \<open>Error placeholders\<close>





































end
